theory Spec2Isabelle
  imports Complex_Main
begin

section \<open>Errors\<close>

text \<open>
  Every \<^verbatim>\<open>throw new Error(msg)\<close> of the source is the value \<open>Error msg\<close>.
  \<open>TypeError\<close> is what the JavaScript runtime raises when a property is read from, or
  a method is called on, \<^verbatim>\<open>undefined\<close> (an array read outside its bounds followed by
  a method call).
\<close>

datatype error = Error string | TypeError

section \<open>Fraction (fractionUtils.js)\<close>

text \<open>
  JavaScript numbers that hold integers are modelled as unbounded integers, and the
  number returned by \<^verbatim>\<open>toNumber\<close> as an exact rational: the rounding and the
  overflow of IEEE doubles beyond \<open>2^53\<close> are outside the model.
\<close>

record fraction =
  numerator :: int
  denominator :: int

text \<open>The remainder operator \<^verbatim>\<open>%\<close>: the result has the sign of the dividend.\<close>

definition js_rem :: "int \<Rightarrow> int \<Rightarrow> int" where
  "js_rem a b = sgn a * (\<bar>a\<bar> mod \<bar>b\<bar>)"

function gcd_js :: "int \<Rightarrow> int \<Rightarrow> int" where
  "gcd_js a b = (if b = 0 then a else gcd_js b (js_rem a b))"
  by pat_completeness auto
termination
  by (relation "measure (\<lambda>(a, b). nat \<bar>b\<bar>)")
     (auto simp: js_rem_def abs_mult abs_sgn_eq intro: abs_mod_less)

declare gcd_js.simps [simp del]

text \<open>
  The constructor. The two divisions by the gcd are exact, so the integer quotient is
  the value JavaScript's \<^verbatim>\<open>/\<close> gives.
\<close>

definition Fraction_new :: "int \<Rightarrow> int \<Rightarrow> error + fraction" where
  "Fraction_new n d =
     (if d = 0 then Inl (Error ''Denominator cannot be zero'')
      else
        let n1 = (if d < 0 then - n else n);
            d1 = (if d < 0 then - d else d);
            g = gcd_js \<bar>n1\<bar> \<bar>d1\<bar>
        in Inr \<lparr>numerator = n1 div g, denominator = d1 div g\<rparr>)"

definition add :: "fraction \<Rightarrow> fraction \<Rightarrow> error + fraction" where
  "add this other =
     Fraction_new (numerator this * denominator other + numerator other * denominator this)
                  (denominator this * denominator other)"


definition multiply :: "fraction \<Rightarrow> fraction \<Rightarrow> error + fraction" where
  "multiply this other =
     Fraction_new (numerator this * numerator other) (denominator this * denominator other)"

definition divide_frac :: "fraction \<Rightarrow> fraction \<Rightarrow> error + fraction" where
  "divide_frac this other =
     (if numerator other = 0 then Inl (Error ''Division by zero'')
      else Fraction_new (numerator this * denominator other)
                        (denominator this * numerator other))"

definition negate :: "fraction \<Rightarrow> error + fraction" where
  "negate this = Fraction_new (- numerator this) (denominator this)"

definition isZero :: "fraction \<Rightarrow> bool" where
  "isZero this = (numerator this = 0)"

definition equals :: "fraction \<Rightarrow> fraction \<Rightarrow> bool" where
  "equals this other =
     (numerator this = numerator other \<and> denominator this = denominator other)"

definition toNumber :: "fraction \<Rightarrow> rat" where
  "toNumber this = of_int (numerator this) / of_int (denominator this)"

text \<open>The invariant of the data model: lowest terms, positive denominator.\<close>

definition frac_ok :: "fraction \<Rightarrow> bool" where
  "frac_ok f = (0 < denominator f \<and> gcd \<bar>numerator f\<bar> (denominator f) = 1)"

section \<open>The store\<close>

text \<open>
  Arrays are mutable and shared by reference, so they live in a store: an address is an
  index into the list of allocated objects, and allocation appends. A row array holds
  Fractions (immutable values); the outer array of a Matrix holds the addresses of its
  row arrays. The fields \<^verbatim>\<open>data\<close>, \<^verbatim>\<open>rows\<close> and \<^verbatim>\<open>cols\<close> of a Matrix object are
  assigned once, when the object is created, so a Matrix is a value that carries the
  address of its outer array.
\<close>

datatype obj = ORow "fraction list" | OData "nat list"

type_synonym heap = "obj list"

record matrix =
  data :: nat
  rows :: nat
  cols :: nat

definition bind_e :: "error + 'a \<Rightarrow> ('a \<Rightarrow> error + 'b) \<Rightarrow> error + 'b" where
  "bind_e r f = (case r of Inl e \<Rightarrow> Inl e | Inr x \<Rightarrow> f x)"

text \<open>A \<^verbatim>\<open>for\<close> loop over a fixed range of indices, stopped by the first error.\<close>

primrec for_each :: "'a list \<Rightarrow> ('a \<Rightarrow> 's \<Rightarrow> error + 's) \<Rightarrow> 's \<Rightarrow> error + 's" where
  "for_each [] body s = Inr s"
| "for_each (x # xs) body s = bind_e (body x s) (for_each xs body)"

definition alloc :: "obj \<Rightarrow> heap \<Rightarrow> nat \<times> heap" where
  "alloc v h = (length h, h @ [v])"

primrec alloc_rows :: "fraction list list \<Rightarrow> heap \<Rightarrow> nat list \<times> heap" where
  "alloc_rows [] h = ([], h)"
| "alloc_rows (r # rs) h =
     (let (a, h1) = alloc (ORow r) h; (as, h2) = alloc_rows rs h1 in (a # as, h2))"

definition get_data :: "heap \<Rightarrow> nat \<Rightarrow> error + nat list" where
  "get_data h a =
     (if a < length h then (case h ! a of OData rs \<Rightarrow> Inr rs | ORow r \<Rightarrow> Inl TypeError)
      else Inl TypeError)"

definition get_row :: "heap \<Rightarrow> nat \<Rightarrow> error + fraction list" where
  "get_row h a =
     (if a < length h then (case h ! a of ORow r \<Rightarrow> Inr r | OData rs \<Rightarrow> Inl TypeError)
      else Inl TypeError)"

primrec get_rows :: "heap \<Rightarrow> nat list \<Rightarrow> error + fraction list list" where
  "get_rows h [] = Inr []"
| "get_rows h (a # as) =
     bind_e (get_row h a) (\<lambda>r. bind_e (get_rows h as) (\<lambda>rs. Inr (r # rs)))"

section \<open>Matrix (rrefCalculator.js)\<close>

text \<open>
  \<^verbatim>\<open>get(i, j)\<close> is \<^verbatim>\<open>this.data[i][j]\<close>. A row index outside the outer array raises
  a TypeError. A column index outside the row gives \<^verbatim>\<open>undefined\<close>, on which every
  caller in the engine calls a method at once; the model raises at the read.
\<close>

definition get :: "matrix \<Rightarrow> nat \<Rightarrow> nat \<Rightarrow> heap \<Rightarrow> error + fraction" where
  "get this i j h =
     bind_e (get_data h (data this)) (\<lambda>rs.
       if i < length rs then
         bind_e (get_row h (rs ! i)) (\<lambda>r. if j < length r then Inr (r ! j) else Inl TypeError)
       else Inl TypeError)"

text \<open>
  The assignment \<^verbatim>\<open>this.data[i][j] = v\<close>. Every assignment of the engine follows a
  read of the same cell, so the index is inside the row when the assignment is reached;
  outside it (where JavaScript would grow the array) the model gives an error.
\<close>

definition set_cell :: "matrix \<Rightarrow> nat \<Rightarrow> nat \<Rightarrow> fraction \<Rightarrow> heap \<Rightarrow> error + heap" where
  "set_cell this i j v h =
     bind_e (get_data h (data this)) (\<lambda>rs.
       if i < length rs then
         bind_e (get_row h (rs ! i)) (\<lambda>r.
           if j < length r then Inr (h[rs ! i := ORow (r[j := v])]) else Inl TypeError)
       else Inl TypeError)"

text \<open>
  \<^verbatim>\<open>clone\<close>: \<^verbatim>\<open>this.data.map(row => [...row])\<close> allocates a new array for every
  row and a new outer array.
\<close>

definition clone :: "matrix \<Rightarrow> heap \<Rightarrow> error + (matrix \<times> heap)" where
  "clone this h =
     bind_e (get_data h (data this)) (\<lambda>rs.
     bind_e (get_rows h rs) (\<lambda>newData.
       let (as, h1) = alloc_rows newData h;
           (a, h2) = alloc (OData as) h1
       in Inr (\<lparr>data = a, rows = rows this, cols = cols this\<rparr>, h2)))"

text \<open>
  \<^verbatim>\<open>swapRows\<close> exchanges two entries of the outer array. Both indices are row indices
  of the matrix wherever the engine calls it; outside the array the model gives an error.
\<close>

definition swapRows :: "matrix \<Rightarrow> nat \<Rightarrow> nat \<Rightarrow> heap \<Rightarrow> error + heap" where
  "swapRows this i j h =
     bind_e (get_data h (data this)) (\<lambda>rs.
       if i < length rs \<and> j < length rs
       then Inr (h[data this := OData (rs[i := rs ! j, j := rs ! i])])
       else Inl TypeError)"

definition multiplyRow :: "matrix \<Rightarrow> nat \<Rightarrow> fraction \<Rightarrow> heap \<Rightarrow> error + heap" where
  "multiplyRow this i scalar h =
     for_each [0..<cols this]
       (\<lambda>j h. bind_e (get this i j h) (\<lambda>x.
                bind_e (multiply x scalar) (\<lambda>y. set_cell this i j y h))) h"

definition addRowMultiple :: "matrix \<Rightarrow> nat \<Rightarrow> nat \<Rightarrow> fraction \<Rightarrow> heap \<Rightarrow> error + heap" where
  "addRowMultiple this i j scalar h =
     for_each [0..<cols this]
       (\<lambda>k h. bind_e (get this i k h) (\<lambda>x.
                bind_e (get this j k h) (\<lambda>y.
                bind_e (multiply y scalar) (\<lambda>z.
                bind_e (add x z) (\<lambda>w. set_cell this i k w h))))) h"

section \<open>computeRREF (rrefCalculator.js)\<close>

text \<open>
  An operation of the log: its type with its parameters, the snapshot taken before the
  row operation and the snapshot taken after it (absent until \<^verbatim>\<open>updateLastOperation\<close>
  stores it). The display strings \<^verbatim>\<open>notation\<close> and \<^verbatim>\<open>description\<close> are not modelled.
  The log is an array local to one call, so it is a list passed along.
\<close>

datatype op_params = OpSwap nat nat | OpScale nat fraction | OpAdd nat nat fraction

record operation =
  params :: op_params
  matrixBefore :: matrix
  matrixAfter :: "matrix option"

record rref_result =
  rref :: matrix
  pivots :: "nat list"
  operations :: "operation list option"

definition recordOperation ::
  "bool \<Rightarrow> matrix \<Rightarrow> op_params \<Rightarrow> operation list \<times> heap \<Rightarrow> error + (operation list \<times> heap)"
where
  "recordOperation trackOperations m p s =
     (case s of (ops, h) \<Rightarrow>
        if \<not> trackOperations then Inr (ops, h)
        else bind_e (clone m h) (\<lambda>(snap, h1).
               Inr (ops @ [\<lparr>params = p, matrixBefore = snap, matrixAfter = None\<rparr>], h1)))"

definition updateLastOperation ::
  "bool \<Rightarrow> matrix \<Rightarrow> operation list \<times> heap \<Rightarrow> error + (operation list \<times> heap)"
where
  "updateLastOperation trackOperations m s =
     (case s of (ops, h) \<Rightarrow>
        if \<not> trackOperations \<or> ops = [] then Inr (ops, h)
        else bind_e (clone m h) (\<lambda>(snap, h1).
               Inr (butlast ops @ [(last ops)\<lparr>matrixAfter := Some snap\<rparr>], h1)))"

text \<open>The search for the pivot row: the first row from \<open>currentRow\<close> on with the
  largest absolute value in the column.\<close>

definition find_pivot :: "matrix \<Rightarrow> nat \<Rightarrow> nat \<Rightarrow> heap \<Rightarrow> error + nat" where
  "find_pivot m col currentRow h =
     bind_e (get m currentRow col h) (\<lambda>x.
     bind_e (for_each [currentRow + 1..<rows m]
               (\<lambda>row (pivotRow, maxVal).
                  bind_e (get m row col h) (\<lambda>y.
                    let val = \<bar>toNumber y\<bar>
                    in if val > maxVal then Inr (row, val) else Inr (pivotRow, maxVal)))
               (currentRow, \<bar>toNumber x\<bar>))
       (\<lambda>(pivotRow, maxVal). Inr pivotRow))"

text \<open>The elimination of the other entries of the pivot column.\<close>

definition eliminate ::
  "matrix \<Rightarrow> bool \<Rightarrow> nat \<Rightarrow> nat \<Rightarrow> operation list \<times> heap \<Rightarrow> error + (operation list \<times> heap)"
where
  "eliminate m trackOperations col currentRow s =
     for_each [0..<rows m]
       (\<lambda>row (ops, h).
          if row \<noteq> currentRow then
            bind_e (get m row col h) (\<lambda>x.
              if \<not> isZero x then
                bind_e (negate x) (\<lambda>factor.
                bind_e (recordOperation trackOperations m (OpAdd row currentRow factor) (ops, h))
                  (\<lambda>(ops1, h1).
                bind_e (addRowMultiple m row currentRow factor h1) (\<lambda>h2.
                  updateLastOperation trackOperations m (ops1, h2))))
              else Inr (ops, h))
          else Inr (ops, h)) s"

text \<open>One pass of the loop over the columns; the state is \<open>currentRow\<close>, the pivots
  found, the log and the store.\<close>

type_synonym rref_state = "nat \<times> nat list \<times> operation list \<times> heap"

definition rref_step :: "matrix \<Rightarrow> bool \<Rightarrow> nat \<Rightarrow> rref_state \<Rightarrow> error + rref_state" where
  "rref_step m trackOperations col s =
     (case s of (currentRow, pivs, ops, h) \<Rightarrow>
        bind_e (find_pivot m col currentRow h) (\<lambda>pivotRow.
        bind_e (get m pivotRow col h) (\<lambda>p.
          if isZero p then Inr (currentRow, pivs, ops, h)
          else
            bind_e (if pivotRow \<noteq> currentRow then
                      bind_e (recordOperation trackOperations m (OpSwap currentRow pivotRow) (ops, h))
                        (\<lambda>(ops1, h1).
                      bind_e (swapRows m currentRow pivotRow h1) (\<lambda>h2.
                        updateLastOperation trackOperations m (ops1, h2)))
                    else Inr (ops, h)) (\<lambda>(ops2, h2).
            bind_e (get m currentRow col h2) (\<lambda>pivot.
            bind_e (Fraction_new 1 1) (\<lambda>one.
            bind_e (if \<not> equals pivot one then
                      bind_e (divide_frac one pivot) (\<lambda>scalar.
                      bind_e (recordOperation trackOperations m (OpScale currentRow scalar) (ops2, h2))
                        (\<lambda>(ops3, h3).
                      bind_e (multiplyRow m currentRow scalar h3) (\<lambda>h4.
                        updateLastOperation trackOperations m (ops3, h4))))
                    else Inr (ops2, h2)) (\<lambda>(ops4, h4).
            bind_e (eliminate m trackOperations col currentRow (ops4, h4)) (\<lambda>(ops5, h5).
              Inr (currentRow + 1, pivs @ [col], ops5, h5)))))))))"

function rref_loop :: "matrix \<Rightarrow> bool \<Rightarrow> nat \<Rightarrow> rref_state \<Rightarrow> error + rref_state" where
  "rref_loop m trackOperations col s =
     (if col < cols m \<and> fst s < rows m then
        (case rref_step m trackOperations col s of
           Inl e \<Rightarrow> Inl e
         | Inr s1 \<Rightarrow> rref_loop m trackOperations (col + 1) s1)
      else Inr s)"
  by pat_completeness auto
termination
  by (relation "measure (\<lambda>(m, t, col, s). cols m - col)") auto

declare rref_loop.simps [simp del]

definition computeRREF :: "matrix \<Rightarrow> bool \<Rightarrow> heap \<Rightarrow> error + (rref_result \<times> heap)" where
  "computeRREF matrix trackOperations h =
     bind_e (clone matrix h) (\<lambda>(m, h1).
     bind_e (rref_loop m trackOperations 0 (0, [], [], h1)) (\<lambda>(currentRow, pivs, ops, h2).
       Inr (\<lparr>rref = m, pivots = pivs,
             operations = (if trackOperations then Some ops else None)\<rparr>, h2)))"

section \<open>Numbers and cell values\<close>

text \<open>
  A JavaScript number is a finite value (an exact rational in the model), NaN or one of
  the infinities. A cell of an input grid is a number, a string, a Fraction object or a
  value of another type (with the text \<^verbatim>\<open>typeof\<close> gives for it).
\<close>

datatype number = Finite rat | NaN | PosInfinity | NegInfinity


definition isNaN :: "number \<Rightarrow> bool" where
  "isNaN x = (x = NaN)"


text \<open>The quotient \<^verbatim>\<open>a / b\<close> of two numbers (the sign of a zero is not modelled).\<close>

definition js_div :: "number \<Rightarrow> number \<Rightarrow> number" where
  "js_div a b =
     (case (a, b) of
        (Finite x, Finite y) \<Rightarrow>
          if y \<noteq> 0 then Finite (x / y)
          else if x = 0 then NaN
          else if x > 0 then PosInfinity else NegInfinity
      | (Finite x, PosInfinity) \<Rightarrow> Finite 0
      | (Finite x, NegInfinity) \<Rightarrow> Finite 0
      | (PosInfinity, Finite y) \<Rightarrow> if y < 0 then NegInfinity else PosInfinity
      | (NegInfinity, Finite y) \<Rightarrow> if y < 0 then PosInfinity else NegInfinity
      | _ \<Rightarrow> NaN)"






primrec map_e :: "('a \<Rightarrow> error + 'b) \<Rightarrow> 'a list \<Rightarrow> error + 'b list" where
  "map_e f [] = Inr []"
| "map_e f (x # xs) = bind_e (f x) (\<lambda>y. bind_e (map_e f xs) (\<lambda>ys. Inr (y # ys)))"

section \<open>Matrix construction and transpose\<close>




section \<open>The four subspaces (spaceCalculator.js)\<close>









section \<open>computeAllSpaces (spaceCalculator.js)\<close>





section \<open>Parsing and validation of the input grid\<close>

definition is_space :: "char \<Rightarrow> bool" where
  "is_space c = (c \<in> set [CHR '' '', CHR 0x09, CHR 0x0A, CHR 0x0B, CHR 0x0C, CHR 0x0D])"

text \<open>\<^verbatim>\<open>trim\<close> on the ASCII white space.\<close>

definition trim :: "string \<Rightarrow> string" where
  "trim str = rev (dropWhile is_space (rev (dropWhile is_space str)))"

fun split_on :: "char \<Rightarrow> string \<Rightarrow> string list" where
  "split_on c [] = [[]]"
| "split_on c (x # xs) =
     (if x = c then [] # split_on c xs
      else (case split_on c xs of [] \<Rightarrow> [[x]] | p # ps \<Rightarrow> (x # p) # ps))"

text \<open>
  \<^verbatim>\<open>parseMatrixCell\<close> (matrixUtils.js). \<^verbatim>\<open>parseFloat\<close> is the built-in of the
  language and a parameter of the model.
\<close>

definition parseMatrixCell :: "(string \<Rightarrow> number) \<Rightarrow> string \<Rightarrow> error + number" where
  "parseMatrixCell parseFloat v =
     (let trimmed = trim v in
      if trimmed = [] then Inr (Finite 0)
      else if CHR ''/'' \<in> set trimmed then
        (case map (\<lambda>p. parseFloat (trim p)) (split_on CHR ''/'' trimmed) of
           num # den # rest \<Rightarrow>
             if isNaN num \<or> isNaN den \<or> den = Finite 0
             then Inl (Error (''Invalid fraction: '' @ trimmed))
             else Inr (js_div num den)
         | _ \<Rightarrow> Inl (Error (''Invalid fraction: '' @ trimmed)))
      else
        let num = parseFloat trimmed in
        if isNaN num then Inl (Error (''Invalid number: '' @ trimmed)) else Inr num)"

definition parseMatrix :: "(string \<Rightarrow> number) \<Rightarrow> string list list \<Rightarrow> error + number list list" where
  "parseMatrix parseFloat grid = map_e (map_e (parseMatrixCell parseFloat)) grid"






section \<open>Reading a Matrix out of the store\<close>

text \<open>
  The addresses of the row arrays of a Matrix, its rows, and their numeric values.
  A Matrix is valid in a store when its outer array has \<open>rows\<close> row arrays, each of
  \<open>cols\<close> Fractions that satisfy the invariant of the data model.
\<close>

definition row_addrs :: "heap \<Rightarrow> matrix \<Rightarrow> nat list" where
  "row_addrs h m = (case get_data h (data m) of Inr rs \<Rightarrow> rs | Inl e \<Rightarrow> [])"

definition rows_of :: "heap \<Rightarrow> matrix \<Rightarrow> fraction list list" where
  "rows_of h m =
     (case bind_e (get_data h (data m)) (get_rows h) of Inr d \<Rightarrow> d | Inl e \<Rightarrow> [])"

definition vals :: "heap \<Rightarrow> matrix \<Rightarrow> rat list list" where
  "vals h m = map (map toNumber) (rows_of h m)"

definition valid_matrix :: "heap \<Rightarrow> matrix \<Rightarrow> bool" where
  "valid_matrix h m =
     (case bind_e (get_data h (data m)) (get_rows h) of
        Inr d \<Rightarrow> length d = rows m \<and> list_all (\<lambda>r. length r = cols m \<and> list_all frac_ok r) d
      | Inl e \<Rightarrow> False)"

text \<open>The arrays of a Matrix lie in the addresses from \<open>lo\<close> up to \<open>hi\<close>.\<close>

definition region :: "nat \<Rightarrow> nat \<Rightarrow> heap \<Rightarrow> matrix \<Rightarrow> bool" where
  "region lo hi h m =
     (lo \<le> data m \<and> data m < hi \<and> hi \<le> length h \<and>
      (case get_data h (data m) of
         Inr rs \<Rightarrow> list_all (\<lambda>a. lo \<le> a \<and> a < hi \<and> (case get_row h a of Inr r \<Rightarrow> True | Inl e \<Rightarrow> False)) rs
       | Inl e \<Rightarrow> False))"

text \<open>Two stores agree on every old address outside the addresses from \<open>lo\<close> up to \<open>hi\<close>.\<close>

definition same_outside :: "nat \<Rightarrow> nat \<Rightarrow> heap \<Rightarrow> heap \<Rightarrow> bool" where
  "same_outside lo hi h h' =
     (length h \<le> length h' \<and> (\<forall>a<length h. a < lo \<or> hi \<le> a \<longrightarrow> h' ! a = h ! a))"

section \<open>The algorithm on values\<close>

text \<open>
  The elimination described on matrices of rationals, without store and without
  errors. It is the yardstick of the proofs: on a valid Matrix the operations on the
  store compute what these functions describe.
\<close>

type_synonym rmat = "rat list list"

datatype op_v = SwapV nat nat | ScaleV nat rat | AddV nat nat rat

type_synonym log_v = "(op_v \<times> rmat \<times> rmat option) list"

definition op_abs :: "op_params \<Rightarrow> op_v" where
  "op_abs p = (case p of OpSwap i j \<Rightarrow> SwapV i j
                | OpScale i s \<Rightarrow> ScaleV i (toNumber s)
                | OpAdd i j s \<Rightarrow> AddV i j (toNumber s))"

definition log_abs :: "heap \<Rightarrow> operation list \<Rightarrow> log_v" where
  "log_abs h ops =
     map (\<lambda>e. (op_abs (params e), vals h (matrixBefore e), map_option (vals h) (matrixAfter e)))
       ops"

definition swap_v :: "rmat \<Rightarrow> nat \<Rightarrow> nat \<Rightarrow> rmat" where
  "swap_v M i j = M[i := M ! j, j := M ! i]"

definition scale_v :: "rmat \<Rightarrow> nat \<Rightarrow> rat \<Rightarrow> rmat" where
  "scale_v M i s = M[i := map (\<lambda>x. x * s) (M ! i)]"

definition addmul_v :: "rmat \<Rightarrow> nat \<Rightarrow> nat \<Rightarrow> rat \<Rightarrow> rmat" where
  "addmul_v M i j s = M[i := map2 (\<lambda>x y. x + y * s) (M ! i) (M ! j)]"

definition record_v :: "bool \<Rightarrow> op_v \<Rightarrow> rmat \<Rightarrow> log_v \<Rightarrow> log_v" where
  "record_v tr p M lg = (if tr then lg @ [(p, M, None)] else lg)"

definition update_v :: "bool \<Rightarrow> rmat \<Rightarrow> log_v \<Rightarrow> log_v" where
  "update_v tr M lg =
     (if \<not> tr \<or> lg = [] then lg
      else butlast lg @ [(fst (last lg), fst (snd (last lg)), Some M)])"

definition find_pivot_v :: "rmat \<Rightarrow> nat \<Rightarrow> nat \<Rightarrow> nat" where
  "find_pivot_v M col cur =
     fst (fold (\<lambda>row (p, mx). if \<bar>M ! row ! col\<bar> > mx then (row, \<bar>M ! row ! col\<bar>) else (p, mx))
            [cur + 1..<length M] (cur, \<bar>M ! cur ! col\<bar>))"

definition eliminate_v :: "bool \<Rightarrow> nat \<Rightarrow> nat \<Rightarrow> log_v \<times> rmat \<Rightarrow> log_v \<times> rmat" where
  "eliminate_v tr col cur s =
     fold (\<lambda>row (lg, M).
             if row \<noteq> cur \<and> M ! row ! col \<noteq> 0 then
               (update_v tr (addmul_v M row cur (- (M ! row ! col)))
                  (record_v tr (AddV row cur (- (M ! row ! col))) M lg),
                addmul_v M row cur (- (M ! row ! col)))
             else (lg, M))
       [0..<length (snd s)] s"

type_synonym state_v = "nat \<times> nat list \<times> log_v \<times> rmat"

definition step_v :: "bool \<Rightarrow> nat \<Rightarrow> state_v \<Rightarrow> state_v" where
  "step_v tr col s =
     (case s of (cur, pivs, lg, M) \<Rightarrow>
        let p = find_pivot_v M col cur in
        if M ! p ! col = 0 then s
        else
          let s2 = (if p \<noteq> cur
                    then (update_v tr (swap_v M cur p) (record_v tr (SwapV cur p) M lg),
                          swap_v M cur p)
                    else (lg, M));
              pv = snd s2 ! cur ! col;
              s4 = (if pv \<noteq> 1
                    then (update_v tr (scale_v (snd s2) cur (1 / pv))
                            (record_v tr (ScaleV cur (1 / pv)) (snd s2) (fst s2)),
                          scale_v (snd s2) cur (1 / pv))
                    else s2);
              s5 = eliminate_v tr col cur s4
          in (cur + 1, pivs @ [col], fst s5, snd s5))"

function loop_v :: "bool \<Rightarrow> nat \<Rightarrow> nat \<Rightarrow> state_v \<Rightarrow> state_v" where
  "loop_v tr n col s =
     (if col < n \<and> fst s < length (snd (snd (snd s)))
      then loop_v tr n (col + 1) (step_v tr col s) else s)"
  by pat_completeness auto
termination
  by (relation "measure (\<lambda>(t, n, col, s). n - col)") auto

declare loop_v.simps [simp del]

definition rref_v :: "bool \<Rightarrow> nat \<Rightarrow> rmat \<Rightarrow> state_v" where
  "rref_v tr n M = loop_v tr n 0 (0, [], [], M)"

text \<open>The abstraction of a state of the loop over the columns.\<close>

definition state_abs :: "matrix \<Rightarrow> rref_state \<Rightarrow> state_v" where
  "state_abs m s = (case s of (cur, pivs, ops, h) \<Rightarrow> (cur, pivs, log_abs h ops, vals h m))"

text \<open>
  The working copy of computeRREF: a valid Matrix whose arrays lie in its own range of
  addresses and whose row arrays are pairwise distinct objects.
\<close>

definition working :: "nat \<Rightarrow> nat \<Rightarrow> heap \<Rightarrow> matrix \<Rightarrow> bool" where
  "working lo hi h m = (region lo hi h m \<and> valid_matrix h m \<and> distinct (row_addrs h m))"

text \<open>
  The snapshots of a log lie above the working copy; \<open>log_inv\<close> is the invariant of
  the log and the store during the elimination.
\<close>

definition snap_ok :: "nat \<Rightarrow> heap \<Rightarrow> matrix \<Rightarrow> bool" where
  "snap_ok lo h s = (region lo (length h) h s \<and> valid_matrix h s)"

definition snaps_ok :: "nat \<Rightarrow> heap \<Rightarrow> operation list \<Rightarrow> bool" where
  "snaps_ok lo h ops =
     list_all (\<lambda>e. snap_ok lo h (matrixBefore e) \<and>
                   (case matrixAfter e of None \<Rightarrow> True | Some s \<Rightarrow> snap_ok lo h s)) ops"

definition log_inv :: "nat \<Rightarrow> nat \<Rightarrow> matrix \<Rightarrow> operation list \<times> heap \<Rightarrow> bool" where
  "log_inv lo hi m s = (case s of (ops, h) \<Rightarrow> working lo hi h m \<and> snaps_ok hi h ops)"

text \<open>The pivot search up to row \<open>b\<close>.\<close>

definition pivot_fold :: "rmat \<Rightarrow> nat \<Rightarrow> nat \<Rightarrow> nat \<Rightarrow> nat \<times> rat" where
  "pivot_fold M col cur b =
     fold (\<lambda>row (p, mx). if \<bar>M ! row ! col\<bar> > mx then (row, \<bar>M ! row ! col\<bar>) else (p, mx))
       [cur + 1..<b] (cur, \<bar>M ! cur ! col\<bar>)"

text \<open>
  What the elimination may write: the working copy stays in its range of addresses and
  the store changes nowhere else.
\<close>

definition framed :: "nat \<Rightarrow> nat \<Rightarrow> matrix \<Rightarrow> heap \<Rightarrow> heap \<Rightarrow> bool" where
  "framed lo hi m h0 h = (region lo hi h m \<and> same_outside lo hi h0 h)"

text \<open>A log on values is a chain from the matrix \<open>M0\<close> to the matrix \<open>M\<close>.\<close>

definition chain_v :: "rmat \<Rightarrow> log_v \<Rightarrow> rmat \<Rightarrow> bool" where
  "chain_v M0 lg M =
     (if lg = [] then M = M0
      else fst (snd (hd lg)) = M0 \<and>
           (\<forall>k. Suc k < length lg \<longrightarrow> snd (snd (lg ! k)) = Some (fst (snd (lg ! Suc k)))) \<and>
           snd (snd (last lg)) = Some M)"

text \<open>A matrix of values with rows of length \<open>n\<close>.\<close>

definition rect :: "nat \<Rightarrow> rmat \<Rightarrow> bool" where
  "rect n M = list_all (\<lambda>r. length r = n) M"

text \<open>The matrix after the elimination loop has passed the rows below \<open>k\<close>.\<close>

definition elim_rows :: "rmat \<Rightarrow> nat \<Rightarrow> nat \<Rightarrow> nat \<Rightarrow> rmat" where
  "elim_rows M col cur k =
     map (\<lambda>i. if i < k \<and> i \<noteq> cur
              then map2 (\<lambda>x y. x + y * (- (M ! i ! col))) (M ! i) (M ! cur)
              else M ! i) [0..<length M]"





text \<open>
  Reduced row-echelon form, as the glossary has it: the leading entry of a row is its
  first non-zero entry; every leading entry is 1 and the only non-zero entry of its
  column, the leading entries move strictly to the right down the rows, and the zero
  rows are at the bottom. \<open>pivot_cols\<close> lists the columns of the leading entries.
\<close>

definition lead :: "rat list \<Rightarrow> nat option" where
  "lead r = List.find (\<lambda>j. r ! j \<noteq> 0) [0..<length r]"

definition in_rref :: "rmat \<Rightarrow> bool" where
  "in_rref M =
     list_all (\<lambda>i.
        case lead (M ! i) of
          None \<Rightarrow> list_all (\<lambda>k. lead (M ! k) = None) [i + 1..<length M]
        | Some j \<Rightarrow>
            M ! i ! j = 1 \<and>
            list_all (\<lambda>k. k = i \<or> M ! k ! j = 0) [0..<length M] \<and>
            list_all (\<lambda>k. case lead (M ! k) of None \<Rightarrow> True | Some j' \<Rightarrow> j < j')
              [i + 1..<length M])
       [0..<length M]"

definition pivot_cols :: "rmat \<Rightarrow> nat list" where
  "pivot_cols M = map (\<lambda>r. the (lead r)) (filter (\<lambda>r. lead r \<noteq> None) M)"

text \<open>The invariant of the elimination on a matrix that is already reduced.\<close>

definition done_inv :: "nat \<Rightarrow> nat \<Rightarrow> nat list \<Rightarrow> rmat \<Rightarrow> bool" where
  "done_inv col cur pivs M =
     (cur \<le> length M \<and> pivs = map (\<lambda>i. the (lead (M ! i))) [0..<cur] \<and>
      (\<forall>i<cur. \<exists>j. lead (M ! i) = Some j \<and> j < col) \<and>
      (\<forall>i. cur \<le> i \<and> i < length M \<longrightarrow> (\<forall>j<col. M ! i ! j = 0)))"

section \<open>The subspaces on values\<close>








text \<open>A store that keeps every object of an earlier store.\<close>

definition kept :: "heap \<Rightarrow> heap \<Rightarrow> bool" where
  "kept h h' = (length h \<le> length h' \<and> (\<forall>a<length h. h' ! a = h ! a))"



section \<open>Basic facts about the error monad\<close>

lemma bind_e_Inr [simp]: "bind_e (Inr x) f = f x"
  by (simp add: bind_e_def)

lemma bind_e_Inl [simp]: "bind_e (Inl e) f = Inl e"
  by (simp add: bind_e_def)

lemma bind_e_eq_Inr: "bind_e r f = Inr y \<longleftrightarrow> (\<exists>x. r = Inr x \<and> f x = Inr y)"
  by (cases r) auto



section \<open>Properties of Fraction\<close>

lemma gcd_js_nonneg: "0 \<le> a \<Longrightarrow> 0 \<le> b \<Longrightarrow> gcd_js a b = gcd a b"
proof (induction a b rule: gcd_js.induct)
  case (1 a b)
  show ?case
  proof (cases "b = 0")
    case True
    with "1.prems" show ?thesis by (simp add: gcd_js.simps)
  next
    case False
    have r: "js_rem a b = a mod b"
      using "1.prems" False by (cases "a = 0") (simp_all add: js_rem_def)
    have "gcd_js a b = gcd_js b (js_rem a b)"
      using False by (subst gcd_js.simps) simp
    also have "\<dots> = gcd b (js_rem a b)"
      using "1.IH" [OF False] "1.prems" False r by simp
    also have "\<dots> = gcd a b"
      unfolding r by (metis gcd.commute gcd_red_int)
    finally show ?thesis .
  qed
qed

lemma Fraction_new_ok:
  assumes "Fraction_new n d = Inr f"
  shows "frac_ok f"
proof -
  from assms have d: "d \<noteq> 0"
    by (auto simp: Fraction_new_def split: if_splits)
  define n1 where "n1 = (if d < 0 then - n else n)"
  define d1 where "d1 = (if d < 0 then - d else d)"
  have d1: "0 < d1" using d by (simp add: d1_def)
  have g: "gcd_js \<bar>n1\<bar> \<bar>d1\<bar> = gcd n1 d1"
    by (simp add: gcd_js_nonneg)
  have f: "f = \<lparr>numerator = n1 div gcd n1 d1, denominator = d1 div gcd n1 d1\<rparr>"
    using assms d g by (simp add: Fraction_new_def Let_def n1_def d1_def)
  have gpos: "0 < gcd n1 d1" using d1 by simp
  have "0 < d1 div gcd n1 d1"
    using d1 gpos by (simp add: pos_imp_zdiv_pos_iff zdvd_imp_le)
  moreover have "gcd (n1 div gcd n1 d1) (d1 div gcd n1 d1) = 1"
    using d1 by (intro div_gcd_coprime coprime_imp_gcd_eq_1) auto
  ultimately show ?thesis
    by (simp add: frac_ok_def f)
qed

lemma Fraction_new_returns: "d \<noteq> 0 \<Longrightarrow> \<exists>f. Fraction_new n d = Inr f"
  by (simp add: Fraction_new_def Let_def)

lemma Fraction_new_total: "y \<noteq> 0 \<Longrightarrow> \<exists>f. Fraction_new x y = Inr f \<and> frac_ok f"
  using Fraction_new_returns [of y x] Fraction_new_ok by blast








section \<open>The cell parser\<close>





section \<open>Ragged grids\<close>







section \<open>Reading the store\<close>

lemma get_data_Inr: "get_data h a = Inr rs \<longleftrightarrow> a < length h \<and> h ! a = OData rs"
  by (auto simp: get_data_def split: obj.splits)

lemma get_row_Inr: "get_row h a = Inr r \<longleftrightarrow> a < length h \<and> h ! a = ORow r"
  by (auto simp: get_row_def split: obj.splits)

lemma get_rows_Inr:
  "get_rows h as = Inr d \<longleftrightarrow>
   length d = length as \<and> (\<forall>i<length as. get_row h (as ! i) = Inr (d ! i))"
proof (induction as arbitrary: d)
  case Nil
  show ?case by auto
next
  case (Cons a as)
  show ?case
  proof (cases d)
    case Nil
    then show ?thesis by (auto simp: bind_e_eq_Inr)
  next
    case (Cons r rs)
    have "(\<forall>i<Suc (length as). get_row h ((a # as) ! i) = Inr ((r # rs) ! i)) \<longleftrightarrow>
          get_row h a = Inr r \<and> (\<forall>i<length as. get_row h (as ! i) = Inr (rs ! i))"
      by (auto simp: less_Suc_eq_0_disj)
    then show ?thesis
      using Cons Cons.IH [of rs] by (auto simp: bind_e_eq_Inr)
  qed
qed

lemma get_rows_cong:
  "(\<And>a. a \<in> set as \<Longrightarrow> get_row h' a = get_row h a) \<Longrightarrow> get_rows h' as = get_rows h as"
  by (induction as) auto

lemma reads_Inr:
  "bind_e (get_data h (data m)) (get_rows h) = Inr d \<longleftrightarrow>
   (\<exists>rs. get_data h (data m) = Inr rs \<and> get_rows h rs = Inr d)"
  by (simp add: bind_e_eq_Inr)

lemma valid_matrix_iff:
  "valid_matrix h m \<longleftrightarrow>
   (\<exists>rs d. get_data h (data m) = Inr rs \<and> get_rows h rs = Inr d \<and> length d = rows m \<and>
           list_all (\<lambda>r. length r = cols m \<and> list_all frac_ok r) d)"
  by (auto simp: valid_matrix_def bind_e_eq_Inr split: sum.splits)

lemma valid_matrixD:
  assumes "valid_matrix h m"
  shows "get_data h (data m) = Inr (row_addrs h m)"
    and "get_rows h (row_addrs h m) = Inr (rows_of h m)"
    and "length (row_addrs h m) = rows m"
    and "length (rows_of h m) = rows m"
    and "\<And>i. i < rows m \<Longrightarrow> get_row h (row_addrs h m ! i) = Inr (rows_of h m ! i)"
    and "\<And>i. i < rows m \<Longrightarrow> length (rows_of h m ! i) = cols m"
    and "\<And>i j. i < rows m \<Longrightarrow> j < cols m \<Longrightarrow> frac_ok (rows_of h m ! i ! j)"
proof -
  from assms obtain rs d where rd: "get_data h (data m) = Inr rs" "get_rows h rs = Inr d"
    "length d = rows m" "list_all (\<lambda>r. length r = cols m \<and> list_all frac_ok r) d"
    by (auto simp: valid_matrix_iff)
  have ra: "row_addrs h m = rs" using rd by (simp add: row_addrs_def)
  have ro: "rows_of h m = d" using rd by (simp add: rows_of_def)
  from rd(2) have l: "length d = length rs" and g: "\<forall>i<length rs. get_row h (rs ! i) = Inr (d ! i)"
    by (auto simp: get_rows_Inr)
  show "get_data h (data m) = Inr (row_addrs h m)" using rd ra by simp
  show "get_rows h (row_addrs h m) = Inr (rows_of h m)" using rd ra ro by simp
  show "length (row_addrs h m) = rows m" using l rd ra by simp
  show "length (rows_of h m) = rows m" using rd ro by simp
  show "\<And>i. i < rows m \<Longrightarrow> get_row h (row_addrs h m ! i) = Inr (rows_of h m ! i)"
    using g l rd ra ro by simp
  show "\<And>i. i < rows m \<Longrightarrow> length (rows_of h m ! i) = cols m"
    using rd ro by (simp add: list_all_length)
  show "\<And>i j. i < rows m \<Longrightarrow> j < cols m \<Longrightarrow> frac_ok (rows_of h m ! i ! j)"
    using rd ro by (simp add: list_all_length)
qed

lemma get_valid:
  assumes "valid_matrix h m" "i < rows m" "j < cols m"
  shows "get m i j h = Inr (rows_of h m ! i ! j)"
  using valid_matrixD [OF assms(1)] assms(2,3) by (simp add: get_def)

lemma vals_nth:
  assumes "valid_matrix h m" "i < rows m" "j < cols m"
  shows "vals h m ! i ! j = toNumber (rows_of h m ! i ! j)"
  using valid_matrixD [OF assms(1)] assms(2,3) by (simp add: vals_def)

lemma vals_shape:
  assumes "valid_matrix h m"
  shows "length (vals h m) = rows m" and "\<And>i. i < rows m \<Longrightarrow> length (vals h m ! i) = cols m"
  using valid_matrixD [OF assms] by (simp_all add: vals_def)

section \<open>Allocation\<close>

lemma alloc_rows_eq:
  "alloc_rows d h = ([length h..<length h + length d], h @ map ORow d)"
proof (induction d arbitrary: h)
  case Nil
  show ?case by simp
next
  case (Cons r d)
  have u: "[length h..<length h + length (r # d)] =
           length h # [length (h @ [ORow r])..<length (h @ [ORow r]) + length d]"
    by (simp add: upt_rec [of "length h"] del: upt_Suc)
  show ?case
    unfolding u by (simp add: Cons.IH alloc_def del: upt_Suc)
qed

lemma nth_append_new: "(h @ xs) ! (length h + k) = xs ! k"
  by (simp add: nth_append)

lemma get_row_append_old: "a < length h \<Longrightarrow> get_row (h @ xs) a = get_row h a"
  by (simp add: get_row_def nth_append)

lemma get_data_append_old: "a < length h \<Longrightarrow> get_data (h @ xs) a = get_data h a"
  by (simp add: get_data_def nth_append)

lemma get_rows_append_old:
  "get_rows h as = Inr d \<Longrightarrow> get_rows (h @ xs) as = Inr d"
  by (auto simp: get_rows_Inr get_row_Inr nth_append)

text \<open>What \<open>clone\<close> does: it appends the copied rows and a new outer array.\<close>

lemma clone_eq:
  assumes "get_data h (data s) = Inr rs" "get_rows h rs = Inr d"
  shows "clone s h =
         Inr (\<lparr>data = length h + length d, rows = rows s, cols = cols s\<rparr>,
              h @ map ORow d @ [OData [length h..<length h + length d]])"
  using assms by (simp add: clone_def alloc_rows_eq alloc_def)

lemma clone_Inr:
  assumes "clone s h = Inr (c, h')"
  obtains rs d where "get_data h (data s) = Inr rs" "get_rows h rs = Inr d"
    "c = \<lparr>data = length h + length d, rows = rows s, cols = cols s\<rparr>"
    "h' = h @ map ORow d @ [OData [length h..<length h + length d]]"
proof -
  from assms obtain rs d where rd: "get_data h (data s) = Inr rs" "get_rows h rs = Inr d"
    by (auto simp: clone_def bind_e_eq_Inr)
  with clone_eq [OF rd] assms that show ?thesis by simp
qed

lemma reads_of_clone:
  "get_data (h @ map ORow d @ [OData [length h..<length h + length d]]) (length h + length d)
     = Inr [length h..<length h + length d]"
  "get_rows (h @ map ORow d @ [OData [length h..<length h + length d]])
     [length h..<length h + length d] = Inr d"
  by (auto simp: get_data_def get_rows_Inr get_row_Inr nth_append)

lemma clone_props:
  assumes "clone s h = Inr (c, h')"
  shows "\<exists>xs. h' = h @ xs"
    and "region (length h) (length h') h' c"
    and "distinct (row_addrs h' c)"
    and "rows_of h' c = rows_of h s"
    and "rows c = rows s" and "cols c = cols s"
    and "valid_matrix h s \<Longrightarrow> valid_matrix h' c"
proof -
  from assms obtain rs d where rd: "get_data h (data s) = Inr rs" "get_rows h rs = Inr d"
    and c: "c = \<lparr>data = length h + length d, rows = rows s, cols = cols s\<rparr>"
    and h': "h' = h @ map ORow d @ [OData [length h..<length h + length d]]"
    by (rule clone_Inr)
  have gd: "get_data h' (data c) = Inr [length h..<length h + length d]"
    and gr: "get_rows h' [length h..<length h + length d] = Inr d"
    unfolding c h' by (simp_all add: reads_of_clone)
  show "\<exists>xs. h' = h @ xs" using h' by simp
  show "rows c = rows s" "cols c = cols s" using c by simp_all
  have ra: "row_addrs h' c = [length h..<length h + length d]"
    using gd by (simp add: row_addrs_def)
  show "distinct (row_addrs h' c)" by (simp add: ra)
  show ro: "rows_of h' c = rows_of h s"
    using gd gr rd by (simp add: rows_of_def)
  have "get_row h' a = Inr (d ! (a - length h))" if "length h \<le> a" "a < length h + length d" for a
    using that by (auto simp: get_row_Inr h' nth_append)
  then show "region (length h) (length h') h' c"
    using gd by (auto simp: region_def c h' list_all_iff)
  show "valid_matrix h' c" if "valid_matrix h s"
    using that gd gr rd c by (auto simp: valid_matrix_iff)
qed

section \<open>Frames\<close>

lemma same_outside_refl: "same_outside lo hi h h"
  by (simp add: same_outside_def)

lemma same_outside_trans:
  "same_outside lo hi h h1 \<Longrightarrow> same_outside lo hi h1 h2 \<Longrightarrow> same_outside lo hi h h2"
  by (auto simp: same_outside_def)

lemma same_outside_append: "same_outside lo hi h (h @ xs)"
  by (simp add: same_outside_def nth_append)

lemma same_outside_length: "same_outside lo hi h h' \<Longrightarrow> length h \<le> length h'"
  by (simp add: same_outside_def)

lemma case_Inr_True: "(case x of Inl e \<Rightarrow> False | Inr r \<Rightarrow> True) \<longleftrightarrow> (\<exists>r. x = Inr r)"
  by (cases x) auto

lemma region_iff:
  "region lo hi h m \<longleftrightarrow>
   lo \<le> data m \<and> data m < hi \<and> hi \<le> length h \<and>
   (\<exists>rs. get_data h (data m) = Inr rs \<and>
      (\<forall>a\<in>set rs. lo \<le> a \<and> a < hi \<and> (\<exists>r. get_row h a = Inr r)))"
  by (cases "get_data h (data m)") (auto simp: region_def list_all_iff case_Inr_True)

lemma regionD:
  assumes "region lo hi h m"
  shows "get_data h (data m) = Inr (row_addrs h m)"
    and "lo \<le> data m" "data m < hi" "hi \<le> length h"
    and "\<And>a. a \<in> set (row_addrs h m) \<Longrightarrow> lo \<le> a \<and> a < hi \<and> (\<exists>r. get_row h a = Inr r)"
  using assms by (auto simp: region_iff row_addrs_def)

lemma regionI:
  assumes "get_data h (data m) = Inr rs" "lo \<le> data m" "data m < hi" "hi \<le> length h"
    and "\<And>a. a \<in> set rs \<Longrightarrow> lo \<le> a \<and> a < hi \<and> (\<exists>r. get_row h a = Inr r)"
  shows "region lo hi h m"
  using assms by (auto simp: region_iff)

text \<open>A Matrix whose arrays lie outside the addresses that changed reads the same.\<close>

lemma region_unchanged:
  assumes r: "region lo hi h s" and so: "same_outside lo' hi' h h'" and d: "hi \<le> lo' \<or> hi' \<le> lo"
  shows "get_data h' (data s) = get_data h (data s)"
    and "row_addrs h' s = row_addrs h s"
    and "rows_of h' s = rows_of h s"
    and "vals h' s = vals h s"
    and "valid_matrix h' s = valid_matrix h s"
    and "region lo hi h' s"
proof -
  note rd = regionD [OF r]
  have same: "h' ! a = h ! a \<and> a < length h \<and> a < length h'" if "lo \<le> a" "a < hi" for a
    using that so d rd(4) by (auto simp: same_outside_def)
  show gd: "get_data h' (data s) = get_data h (data s)"
    using same [of "data s"] rd by (simp add: get_data_def)
  show ra: "row_addrs h' s = row_addrs h s"
    using gd by (simp add: row_addrs_def)
  have gr: "get_row h' a = get_row h a" if "a \<in> set (row_addrs h s)" for a
    using same [of a] rd(5) [OF that] by (simp add: get_row_def)
  have grs: "get_rows h' (row_addrs h s) = get_rows h (row_addrs h s)"
    by (rule get_rows_cong) (rule gr)
  have b: "bind_e (get_data h' (data s)) (get_rows h') = bind_e (get_data h (data s)) (get_rows h)"
    using gd grs rd(1) by simp
  show ro: "rows_of h' s = rows_of h s" by (simp add: rows_of_def b)
  show "vals h' s = vals h s" by (simp add: vals_def ro)
  show "valid_matrix h' s = valid_matrix h s" by (simp add: valid_matrix_def b)
  show "region lo hi h' s"
  proof (rule regionI)
    show "get_data h' (data s) = Inr (row_addrs h s)" using gd rd(1) by simp
    show "lo \<le> data s" "data s < hi" using rd by simp_all
    show "hi \<le> length h'" using rd(4) so by (simp add: same_outside_def)
    show "lo \<le> a \<and> a < hi \<and> (\<exists>r. get_row h' a = Inr r)" if "a \<in> set (row_addrs h s)" for a
      using rd(5) [OF that] gr [OF that] by simp
  qed
qed

lemma region_mono: "region lo hi h s \<Longrightarrow> lo' \<le> lo \<Longrightarrow> hi \<le> hi' \<Longrightarrow> hi' \<le> length h \<Longrightarrow> region lo' hi' h s"
  by (fastforce simp: region_iff)

text \<open>Writing a row array of a Matrix, and writing its outer array.\<close>

lemma region_write_row:
  assumes r: "region lo hi h m" and a: "a \<in> set (row_addrs h m)"
  shows "same_outside lo hi h (h[a := ORow r'])"
    and "region lo hi (h[a := ORow r']) m"
    and "row_addrs (h[a := ORow r']) m = row_addrs h m"
    and "get_data (h[a := ORow r']) (data m) = get_data h (data m)"
    and "\<And>b. get_row (h[a := ORow r']) b = (if b = a then Inr r' else get_row h b)"
proof -
  note rd = regionD [OF r]
  from rd(5) [OF a] obtain r0 where a': "lo \<le> a" "a < hi" "get_row h a = Inr r0" by auto
  have ne: "a \<noteq> data m"
    using rd(1) a'(3) by (auto simp: get_row_Inr get_data_Inr)
  have al: "a < length h" using a' by (simp add: get_row_Inr)
  show "same_outside lo hi h (h[a := ORow r'])"
    using a' by (auto simp: same_outside_def)
  show gd: "get_data (h[a := ORow r']) (data m) = get_data h (data m)"
    using ne by (simp add: get_data_def)
  show gr: "\<And>b. get_row (h[a := ORow r']) b = (if b = a then Inr r' else get_row h b)"
    using al by (simp add: get_row_def)
  show "row_addrs (h[a := ORow r']) m = row_addrs h m"
    by (simp add: row_addrs_def gd)
  show "region lo hi (h[a := ORow r']) m"
  proof (rule regionI)
    show "get_data (h[a := ORow r']) (data m) = Inr (row_addrs h m)" using gd rd(1) by simp
    show "lo \<le> data m" "data m < hi" using rd by simp_all
    show "hi \<le> length (h[a := ORow r'])" using rd(4) by simp
    show "lo \<le> b \<and> b < hi \<and> (\<exists>r. get_row (h[a := ORow r']) b = Inr r)"
      if "b \<in> set (row_addrs h m)" for b
      using rd(5) [OF that] gr by simp
  qed
qed

lemma region_write_data:
  assumes r: "region lo hi h m" and s: "set rs' \<subseteq> set (row_addrs h m)"
  shows "same_outside lo hi h (h[data m := OData rs'])"
    and "region lo hi (h[data m := OData rs']) m"
    and "get_data (h[data m := OData rs']) (data m) = Inr rs'"
    and "\<And>b. b \<in> set (row_addrs h m) \<Longrightarrow> get_row (h[data m := OData rs']) b = get_row h b"
proof -
  note rd = regionD [OF r]
  have dl: "data m < length h" using rd by simp
  show "same_outside lo hi h (h[data m := OData rs'])"
    using rd by (auto simp: same_outside_def)
  show gd: "get_data (h[data m := OData rs']) (data m) = Inr rs'"
    using dl by (simp add: get_data_def)
  show gr: "get_row (h[data m := OData rs']) b = get_row h b" if "b \<in> set (row_addrs h m)" for b
  proof -
    from rd(5) [OF that] obtain r0 where "get_row h b = Inr r0" by auto
    then have "b \<noteq> data m" using rd(1) by (auto simp: get_row_Inr get_data_Inr)
    then show ?thesis by (simp add: get_row_def)
  qed
  show "region lo hi (h[data m := OData rs']) m"
  proof (rule regionI)
    show "get_data (h[data m := OData rs']) (data m) = Inr rs'" by (rule gd)
    show "lo \<le> data m" "data m < hi" using rd by simp_all
    show "hi \<le> length (h[data m := OData rs'])" using rd(4) by simp
    show "lo \<le> b \<and> b < hi \<and> (\<exists>r. get_row (h[data m := OData rs']) b = Inr r)"
      if "b \<in> set rs'" for b
      using rd(5) [of b] gr [of b] that s by auto
  qed
qed

section \<open>The value of a Fraction\<close>

lemma toNumber_Fract: "toNumber f = Fract (numerator f) (denominator f)"
  by (simp add: toNumber_def Fract_of_int_quotient)

lemma Fraction_new_val:
  assumes "Fraction_new n d = Inr f"
  shows "toNumber f = of_int n / of_int d"
proof -
  from assms have d: "d \<noteq> 0"
    by (auto simp: Fraction_new_def split: if_splits)
  define n1 where "n1 = (if d < 0 then - n else n)"
  define d1 where "d1 = (if d < 0 then - d else d)"
  have d1: "0 < d1" using d by (simp add: d1_def)
  have g: "gcd_js \<bar>n1\<bar> \<bar>d1\<bar> = gcd n1 d1"
    by (simp add: gcd_js_nonneg)
  have f: "f = \<lparr>numerator = n1 div gcd n1 d1, denominator = d1 div gcd n1 d1\<rparr>"
    using assms d g by (simp add: Fraction_new_def Let_def n1_def d1_def)
  have "toNumber f = Fract (n1 div gcd n1 d1) (d1 div gcd n1 d1)"
    by (simp add: f toNumber_Fract)
  also have "\<dots> = Fract n1 d1" by (rule Fract_coprime)
  also have "\<dots> = Fract n d" by (simp add: n1_def d1_def)
  finally show ?thesis by (simp add: Fract_of_int_quotient)
qed

lemma frac_ok_quotient:
  assumes "frac_ok f"
  shows "quotient_of (toNumber f) = (numerator f, denominator f)"
proof -
  from assms have "0 < denominator f" "coprime (numerator f) (denominator f)"
    by (auto simp: frac_ok_def coprime_iff_gcd_eq_1)
  then show ?thesis
    by (simp add: toNumber_Fract quotient_of_Fract normalize_stable)
qed

lemma toNumber_inj:
  assumes "frac_ok a" "frac_ok b" "toNumber a = toNumber b"
  shows "a = b"
proof -
  have "(numerator a, denominator a) = (numerator b, denominator b)"
    using frac_ok_quotient [OF assms(1)] frac_ok_quotient [OF assms(2)] assms(3) by simp
  then show ?thesis by simp
qed

lemma isZero_val: "frac_ok f \<Longrightarrow> isZero f \<longleftrightarrow> toNumber f = 0"
  by (auto simp: isZero_def toNumber_def frac_ok_def)

lemma one_new: "Fraction_new 1 1 = Inr \<lparr>numerator = 1, denominator = 1\<rparr>"
  by code_simp


lemma frac_ok_one: "frac_ok \<lparr>numerator = 1, denominator = 1\<rparr>"
  by (simp add: frac_ok_def)


lemma equals_one_val:
  assumes "frac_ok f"
  shows "equals f \<lparr>numerator = 1, denominator = 1\<rparr> \<longleftrightarrow> toNumber f = 1"
proof
  assume "equals f \<lparr>numerator = 1, denominator = 1\<rparr>"
  then show "toNumber f = 1" by (simp add: equals_def toNumber_def)
next
  assume "toNumber f = 1"
  then have "toNumber f = toNumber \<lparr>numerator = 1, denominator = 1\<rparr>"
    by (simp add: toNumber_def)
  from toNumber_inj [OF assms frac_ok_one this]
  show "equals f \<lparr>numerator = 1, denominator = 1\<rparr>" by (simp add: equals_def)
qed

lemma Fraction_new_full:
  "d \<noteq> 0 \<Longrightarrow> \<exists>f. Fraction_new n d = Inr f \<and> frac_ok f \<and> toNumber f = of_int n / of_int d"
  using Fraction_new_total [of d n] Fraction_new_val by blast

lemma den_pos: "frac_ok a \<Longrightarrow> denominator a \<noteq> 0"
  by (simp add: frac_ok_def)

lemma add_val:
  assumes "frac_ok a" "frac_ok b"
  shows "\<exists>c. add a b = Inr c \<and> frac_ok c \<and> toNumber c = toNumber a + toNumber b"
proof -
  have nz: "denominator a \<noteq> 0" "denominator b \<noteq> 0" using assms by (simp_all add: den_pos)
  then have "denominator a * denominator b \<noteq> 0" by simp
  from Fraction_new_full [OF this, of "numerator a * denominator b + numerator b * denominator a"]
  obtain c where c: "add a b = Inr c" "frac_ok c"
    "toNumber c = of_int (numerator a * denominator b + numerator b * denominator a) /
                  of_int (denominator a * denominator b)"
    by (auto simp: add_def)
  have "toNumber a + toNumber b =
        of_int (numerator a * denominator b + numerator b * denominator a) /
        of_int (denominator a * denominator b)"
    using nz by (simp add: toNumber_def add_frac_eq)
  with c show ?thesis by simp
qed

lemma multiply_val:
  assumes "frac_ok a" "frac_ok b"
  shows "\<exists>c. multiply a b = Inr c \<and> frac_ok c \<and> toNumber c = toNumber a * toNumber b"
proof -
  have nz: "denominator a \<noteq> 0" "denominator b \<noteq> 0" using assms by (simp_all add: den_pos)
  then have "denominator a * denominator b \<noteq> 0" by simp
  from Fraction_new_full [OF this, of "numerator a * numerator b"]
  obtain c where c: "multiply a b = Inr c" "frac_ok c"
    "toNumber c = of_int (numerator a * numerator b) / of_int (denominator a * denominator b)"
    by (auto simp: multiply_def)
  have "toNumber a * toNumber b =
        of_int (numerator a * numerator b) / of_int (denominator a * denominator b)"
    by (simp add: toNumber_def)
  with c show ?thesis by simp
qed

lemma negate_val:
  assumes "frac_ok a"
  shows "\<exists>c. negate a = Inr c \<and> frac_ok c \<and> toNumber c = - toNumber a"
proof -
  have "denominator a \<noteq> 0" using assms by (simp add: den_pos)
  from Fraction_new_full [OF this, of "- numerator a"]
  obtain c where c: "negate a = Inr c" "frac_ok c"
    "toNumber c = of_int (- numerator a) / of_int (denominator a)"
    by (auto simp: negate_def)
  have "- toNumber a = of_int (- numerator a) / of_int (denominator a)"
    by (simp add: toNumber_def)
  with c show ?thesis by simp
qed

lemma divide_val:
  assumes "frac_ok a" "frac_ok b" "\<not> isZero b"
  shows "\<exists>c. divide_frac a b = Inr c \<and> frac_ok c \<and> toNumber c = toNumber a / toNumber b"
proof -
  have nz: "denominator a \<noteq> 0" "numerator b \<noteq> 0"
    using assms by (simp_all add: den_pos isZero_def)
  then have "denominator a * numerator b \<noteq> 0" by simp
  from Fraction_new_full [OF this, of "numerator a * denominator b"]
  obtain c where c: "divide_frac a b = Inr c" "frac_ok c"
    "toNumber c = of_int (numerator a * denominator b) / of_int (denominator a * numerator b)"
    using nz by (auto simp: divide_frac_def)
  have "toNumber a / toNumber b =
        of_int (numerator a * denominator b) / of_int (denominator a * numerator b)"
    by (simp add: toNumber_def)
  with c show ?thesis by simp
qed

section \<open>Loops\<close>

lemma for_each_sim:
  assumes step: "\<And>x s. x \<in> set xs \<Longrightarrow> I s \<Longrightarrow> \<exists>s'. body x s = Inr s' \<and> I s' \<and> \<alpha> s' = f x (\<alpha> s)"
    and init: "I s"
  shows "\<exists>s'. for_each xs body s = Inr s' \<and> I s' \<and> \<alpha> s' = fold f xs (\<alpha> s)"
  using assms
proof (induction xs arbitrary: s)
  case Nil
  then show ?case by simp
next
  case (Cons x xs)
  from Cons.prems(1) [of x s] Cons.prems(2)
  obtain s1 where s1: "body x s = Inr s1" "I s1" "\<alpha> s1 = f x (\<alpha> s)" by auto
  have "\<exists>s'. for_each xs body s1 = Inr s' \<and> I s' \<and> \<alpha> s' = fold f xs (\<alpha> s1)"
    by (rule Cons.IH) (use Cons.prems(1) s1 in auto)
  then show ?case using s1 by simp
qed

lemma for_each_inv:
  assumes step: "\<And>x s s'. x \<in> set xs \<Longrightarrow> I s \<Longrightarrow> body x s = Inr s' \<Longrightarrow> I s'"
    and init: "I s" and run: "for_each xs body s = Inr s'"
  shows "I s'"
  using assms
proof (induction xs arbitrary: s)
  case Nil
  then show ?case by simp
next
  case (Cons x xs)
  from Cons.prems(3) obtain s1 where s1: "body x s = Inr s1" "for_each xs body s1 = Inr s'"
    by (auto simp: bind_e_eq_Inr)
  have "I s1" using Cons.prems(1) [of x s s1] Cons.prems(2) s1 by simp
  show ?case
    by (rule Cons.IH [of s1]) (use Cons.prems(1) \<open>I s1\<close> s1 in auto)
qed

section \<open>Writes to the working matrix\<close>

lemma working_write_row:
  assumes w: "working lo hi h m" and i: "i < rows m"
    and r': "length r' = cols m" "list_all frac_ok r'"
  defines "h' \<equiv> h[row_addrs h m ! i := ORow r']"
  shows "working lo hi h' m" and "same_outside lo hi h h'"
    and "rows_of h' m = (rows_of h m)[i := r']"
    and "row_addrs h' m = row_addrs h m"
proof -
  from w have r: "region lo hi h m" and v: "valid_matrix h m" and d: "distinct (row_addrs h m)"
    by (simp_all add: working_def)
  note vd = valid_matrixD [OF v]
  let ?rs = "row_addrs h m"
  let ?a = "?rs ! i"
  have a: "?a \<in> set ?rs" using i vd(3) by simp
  note wr = region_write_row [OF r a, of r', folded h'_def]
  show so: "same_outside lo hi h h'" by (rule wr(1))
  show ra: "row_addrs h' m = row_addrs h m" by (rule wr(3))
  have gd: "get_data h' (data m) = Inr ?rs" using wr(4) vd(1) by simp
  have grs: "get_rows h' ?rs = Inr ((rows_of h m)[i := r'])"
  proof -
    have "get_row h' (?rs ! k) = Inr ((rows_of h m)[i := r'] ! k)" if k: "k < length ?rs" for k
    proof (cases "k = i")
      case True
      then show ?thesis using wr(5) i vd(4) by simp
    next
      case False
      then have "?rs ! k \<noteq> ?a"
        using d k i vd(3) by (simp add: nth_eq_iff_index_eq)
      then show ?thesis
        using wr(5) False k vd(3) vd(5) [of k] by simp
    qed
    then show ?thesis by (simp add: get_rows_Inr vd(3) vd(4))
  qed
  show ro: "rows_of h' m = (rows_of h m)[i := r']"
    using gd grs by (simp add: rows_of_def)
  have "length ((rows_of h m)[i := r'] ! k) = cols m \<and> list_all frac_ok ((rows_of h m)[i := r'] ! k)"
    if "k < rows m" for k
    using that r' vd(4) vd(6) [of k] vd(7) [of k]
    by (cases "k = i") (simp_all add: list_all_length)
  then have "list_all (\<lambda>r. length r = cols m \<and> list_all frac_ok r) ((rows_of h m)[i := r'])"
    using vd(4) by (simp add: list_all_length)
  then have "valid_matrix h' m"
    using gd grs vd(4) by (auto simp: valid_matrix_iff)
  then show "working lo hi h' m"
    using wr(2) ra d by (simp add: working_def)
qed

lemma working_write_data:
  assumes w: "working lo hi h m" and i: "i < rows m" and j: "j < rows m"
  defines "h' \<equiv> h[data m := OData ((row_addrs h m)[i := row_addrs h m ! j, j := row_addrs h m ! i])]"
  shows "working lo hi h' m" and "same_outside lo hi h h'"
    and "rows_of h' m = (rows_of h m)[i := rows_of h m ! j, j := rows_of h m ! i]"
proof -
  from w have r: "region lo hi h m" and v: "valid_matrix h m" and d: "distinct (row_addrs h m)"
    by (simp_all add: working_def)
  note vd = valid_matrixD [OF v]
  let ?rs = "row_addrs h m"
  let ?rs' = "?rs[i := ?rs ! j, j := ?rs ! i]"
  let ?d = "rows_of h m"
  let ?d' = "?d[i := ?d ! j, j := ?d ! i]"
  have s: "set ?rs' = set ?rs" using i j vd(3) by (simp add: set_swap)
  then have s': "set ?rs' \<subseteq> set ?rs" by simp
  note wd = region_write_data [OF r s', folded h'_def]
  show "same_outside lo hi h h'" by (rule wd(1))
  have ra: "row_addrs h' m = ?rs'" using wd(3) by (simp add: row_addrs_def)
  have grs: "get_rows h' ?rs' = Inr ?d'"
  proof -
    have "get_row h' (?rs' ! k) = Inr (?d' ! k)" if k: "k < length ?rs" for k
    proof -
      have "?rs' ! k \<in> set ?rs" using s k by (metis length_list_update nth_mem)
      then have g: "get_row h' (?rs' ! k) = get_row h (?rs' ! k)" by (rule wd(4))
      show ?thesis
        unfolding g using k i j vd(3) vd(4) vd(5)
        by (auto simp: nth_list_update)
    qed
    then show ?thesis by (simp add: get_rows_Inr vd(3) vd(4))
  qed
  show "rows_of h' m = ?d'"
    using wd(3) grs by (simp add: rows_of_def)
  have okrow: "length (?d ! k) = cols m \<and> list_all frac_ok (?d ! k)" if "k < rows m" for k
    using that vd(6) [of k] vd(7) [of k] by (simp add: list_all_length)
  have "length (?d' ! k) = cols m \<and> list_all frac_ok (?d' ! k)" if "k < rows m" for k
    using that okrow [of k] okrow [of i] okrow [of j] i j vd(4)
    by (simp add: nth_list_update)
  then have "list_all (\<lambda>r. length r = cols m \<and> list_all frac_ok r) ?d'"
    using vd(4) by (simp add: list_all_length)
  then have "valid_matrix h' m"
    using wd(3) grs vd(4) by (auto simp: valid_matrix_iff)
  moreover have "distinct ?rs'" using d i j vd(3) by (simp add: distinct_swap)
  ultimately show "working lo hi h' m"
    using wd(2) ra by (simp add: working_def)
qed

lemma workingD:
  assumes "working lo hi h m"
  shows "region lo hi h m" "valid_matrix h m" "distinct (row_addrs h m)"
  using assms by (simp_all add: working_def)

lemma vals_update_row:
  "vals h' m = map (map toNumber) ((rows_of h m)[i := r'])
   \<Longrightarrow> vals h' m = (vals h m)[i := map toNumber r']"
  by (simp add: vals_def map_update)

text \<open>The assignment of a cell of the working matrix.\<close>

lemma set_cell_sim:
  assumes w: "working lo hi h m" and i: "i < rows m" and j: "j < cols m" and y: "frac_ok y"
  shows "\<exists>h'. set_cell m i j y h = Inr h' \<and> working lo hi h' m \<and> same_outside lo hi h h' \<and>
           rows_of h' m = (rows_of h m)[i := (rows_of h m ! i)[j := y]] \<and>
           vals h' m = (vals h m)[i := (vals h m ! i)[j := toNumber y]]"
proof -
  note v = workingD(2) [OF w]
  note vd = valid_matrixD [OF v]
  let ?r' = "(rows_of h m ! i)[j := y]"
  let ?h' = "h[row_addrs h m ! i := ORow ?r']"
  have sc: "set_cell m i j y h = Inr ?h'"
    using vd(1) vd(3) vd(5) [OF i] vd(6) [OF i] i j by (simp add: set_cell_def)
  have len: "length ?r' = cols m" using vd(6) [OF i] by simp
  have ok: "list_all frac_ok ?r'"
    using vd(7) [OF i] vd(6) [OF i] y j by (auto simp: list_all_length nth_list_update)
  note ww = working_write_row [OF w i len ok]
  have "vals ?h' m = (vals h m)[i := (vals h m ! i)[j := toNumber y]]"
    using ww(3) i vd(4) by (simp add: vals_def map_update)
  with sc ww show ?thesis by simp
qed

lemma swapRows_sim:
  assumes w: "working lo hi h m" and i: "i < rows m" and j: "j < rows m"
  shows "\<exists>h'. swapRows m i j h = Inr h' \<and> working lo hi h' m \<and> same_outside lo hi h h' \<and>
           vals h' m = swap_v (vals h m) i j"
proof -
  note v = workingD(2) [OF w]
  note vd = valid_matrixD [OF v]
  let ?rs = "row_addrs h m"
  let ?h' = "h[data m := OData (?rs[i := ?rs ! j, j := ?rs ! i])]"
  have sw: "swapRows m i j h = Inr ?h'"
    using vd(1) vd(3) i j by (simp add: swapRows_def)
  note ww = working_write_data [OF w i j]
  have "vals ?h' m = swap_v (vals h m) i j"
    using ww(3) i j vd(4) by (simp add: vals_def swap_v_def map_update)
  with sw ww show ?thesis by simp
qed

section \<open>Row operations as folds over the columns\<close>

lemma update_take_drop:
  assumes "k < length r"
  shows "(map f (take k r) @ drop k r)[k := f (r ! k)] = map f (take (Suc k) r) @ drop (Suc k) r"
  using assms
  by (intro nth_equalityI) (auto simp: nth_list_update nth_append less_Suc_eq)

lemma fold_scale:
  assumes i: "i < length M" and k: "k \<le> length (M ! i)"
  shows "fold (\<lambda>j M. M[i := (M ! i)[j := M ! i ! j * s]]) [0..<k] M =
         M[i := map (\<lambda>x. x * s) (take k (M ! i)) @ drop k (M ! i)]"
  using k
proof (induction k)
  case 0
  show ?case by simp
next
  case (Suc k)
  let ?r = "M ! i"
  let ?R = "map (\<lambda>x. x * s) (take k ?r) @ drop k ?r"
  have kl: "k < length ?r" using Suc.prems by simp
  have Rk: "?R ! k = ?r ! k" using kl by (simp add: nth_append)
  have "fold (\<lambda>j M. M[i := (M ! i)[j := M ! i ! j * s]]) [0..<Suc k] M =
        (M[i := ?R])[i := ?R[k := ?R ! k * s]]"
    using Suc i by simp
  also have "\<dots> = M[i := ?R[k := ?r ! k * s]]" by (simp add: Rk)
  also have "?R[k := ?r ! k * s] = map (\<lambda>x. x * s) (take (Suc k) ?r) @ drop (Suc k) ?r"
    by (rule update_take_drop [OF kl])
  finally show ?case .
qed

lemma fold_scale_full:
  assumes "i < length M" "length (M ! i) = n"
  shows "fold (\<lambda>j M. M[i := (M ! i)[j := M ! i ! j * s]]) [0..<n] M = scale_v M i s"
  using fold_scale [OF assms(1), of n s] assms(2) by (simp add: scale_v_def)

lemma update_take_drop2:
  assumes "k < length r" "k < length q"
  shows "(map2 g (take k r) (take k q) @ drop k r)[k := g (r ! k) (q ! k)] =
         map2 g (take (Suc k) r) (take (Suc k) q) @ drop (Suc k) r"
  using assms
  by (intro nth_equalityI) (auto simp: nth_list_update nth_append less_Suc_eq)

lemma fold_addmul:
  assumes i: "i < length M" and ij: "i \<noteq> j" and k: "k \<le> length (M ! i)" "k \<le> length (M ! j)"
  shows "fold (\<lambda>c M. M[i := (M ! i)[c := M ! i ! c + M ! j ! c * s]]) [0..<k] M =
         M[i := map2 (\<lambda>x y. x + y * s) (take k (M ! i)) (take k (M ! j)) @ drop k (M ! i)]"
  using k
proof (induction k)
  case 0
  show ?case by simp
next
  case (Suc k)
  let ?r = "M ! i" and ?q = "M ! j"
  let ?R = "map2 (\<lambda>x y. x + y * s) (take k ?r) (take k ?q) @ drop k ?r"
  have kl: "k < length ?r" "k < length ?q" using Suc.prems by simp_all
  have Rk: "?R ! k = ?r ! k" using kl by (simp add: nth_append)
  have "fold (\<lambda>c M. M[i := (M ! i)[c := M ! i ! c + M ! j ! c * s]]) [0..<Suc k] M =
        (M[i := ?R])[i := ?R[k := ?R ! k + (M[i := ?R]) ! j ! k * s]]"
    using Suc i by simp
  also have "\<dots> = M[i := ?R[k := ?r ! k + ?q ! k * s]]" using ij by (simp add: Rk)
  also have "?R[k := ?r ! k + ?q ! k * s] =
             map2 (\<lambda>x y. x + y * s) (take (Suc k) ?r) (take (Suc k) ?q) @ drop (Suc k) ?r"
    by (rule update_take_drop2 [OF kl])
  finally show ?case .
qed

lemma fold_addmul_full:
  assumes "i < length M" "i \<noteq> j" "length (M ! i) = n" "length (M ! j) = n"
  shows "fold (\<lambda>c M. M[i := (M ! i)[c := M ! i ! c + M ! j ! c * s]]) [0..<n] M = addmul_v M i j s"
  using fold_addmul [OF assms(1,2), of n s] assms(3,4) by (simp add: addmul_v_def)

lemma working_shape:
  assumes "working lo hi h m"
  shows "length (vals h m) = rows m" "\<And>i. i < rows m \<Longrightarrow> length (vals h m ! i) = cols m"
  using vals_shape [OF workingD(2) [OF assms]] by simp_all

lemma multiplyRow_sim:
  assumes w: "working lo hi h m" and i: "i < rows m" and s: "frac_ok s"
  shows "\<exists>h'. multiplyRow m i s h = Inr h' \<and> working lo hi h' m \<and> same_outside lo hi h h' \<and>
           vals h' m = scale_v (vals h m) i (toNumber s)"
proof -
  let ?I = "\<lambda>h1. working lo hi h1 m \<and> same_outside lo hi h h1"
  let ?f = "\<lambda>j M. M[i := (M ! i)[j := M ! i ! j * toNumber s]]"
  let ?body = "\<lambda>j h. bind_e (get m i j h) (\<lambda>x. bind_e (multiply x s) (\<lambda>y. set_cell m i j y h))"
  have step: "\<exists>h2. ?body j h1 = Inr h2 \<and> ?I h2 \<and> vals h2 m = ?f j (vals h1 m)"
    if j: "j \<in> set [0..<cols m]" and I: "?I h1" for j h1
  proof -
    from j have j': "j < cols m" by simp
    from I have w1: "working lo hi h1 m" by simp
    note v1 = workingD(2) [OF w1]
    let ?x = "rows_of h1 m ! i ! j"
    have g: "get m i j h1 = Inr ?x" by (rule get_valid [OF v1 i j'])
    have okx: "frac_ok ?x" by (rule valid_matrixD(7) [OF v1 i j'])
    from multiply_val [OF okx s] obtain y where
      y: "multiply ?x s = Inr y" "frac_ok y" "toNumber y = toNumber ?x * toNumber s" by auto
    from set_cell_sim [OF w1 i j' y(2)] obtain h2 where
      h2: "set_cell m i j y h1 = Inr h2" "working lo hi h2 m" "same_outside lo hi h1 h2"
          "vals h2 m = (vals h1 m)[i := (vals h1 m ! i)[j := toNumber y]]" by auto
    have "toNumber y = vals h1 m ! i ! j * toNumber s"
      using y(3) vals_nth [OF v1 i j'] by simp
    then show ?thesis
      using g y h2 I same_outside_trans by auto
  qed
  from for_each_sim [where I = ?I and \<alpha> = "\<lambda>h. vals h m" and f = ?f and body = ?body
      and xs = "[0..<cols m]" and s = h, OF step]
  obtain h' where h': "for_each [0..<cols m] ?body h = Inr h'" "?I h'"
    "vals h' m = fold ?f [0..<cols m] (vals h m)"
    using w same_outside_refl by blast
  have "fold ?f [0..<cols m] (vals h m) = scale_v (vals h m) i (toNumber s)"
    by (rule fold_scale_full) (use working_shape [OF w] i in simp_all)
  with h' show ?thesis by (simp add: multiplyRow_def)
qed

lemma addRowMultiple_sim:
  assumes w: "working lo hi h m" and i: "i < rows m" and j: "j < rows m" and ij: "i \<noteq> j"
    and s: "frac_ok s"
  shows "\<exists>h'. addRowMultiple m i j s h = Inr h' \<and> working lo hi h' m \<and> same_outside lo hi h h' \<and>
           vals h' m = addmul_v (vals h m) i j (toNumber s)"
proof -
  let ?I = "\<lambda>h1. working lo hi h1 m \<and> same_outside lo hi h h1"
  let ?f = "\<lambda>c M. M[i := (M ! i)[c := M ! i ! c + M ! j ! c * toNumber s]]"
  let ?body = "\<lambda>k h. bind_e (get m i k h) (\<lambda>x. bind_e (get m j k h) (\<lambda>y.
                  bind_e (multiply y s) (\<lambda>z. bind_e (add x z) (\<lambda>w. set_cell m i k w h))))"
  have step: "\<exists>h2. ?body k h1 = Inr h2 \<and> ?I h2 \<and> vals h2 m = ?f k (vals h1 m)"
    if k: "k \<in> set [0..<cols m]" and I: "?I h1" for k h1
  proof -
    from k have k': "k < cols m" by simp
    from I have w1: "working lo hi h1 m" by simp
    note v1 = workingD(2) [OF w1]
    let ?x = "rows_of h1 m ! i ! k" and ?y = "rows_of h1 m ! j ! k"
    have gx: "get m i k h1 = Inr ?x" by (rule get_valid [OF v1 i k'])
    have gy: "get m j k h1 = Inr ?y" by (rule get_valid [OF v1 j k'])
    have okx: "frac_ok ?x" by (rule valid_matrixD(7) [OF v1 i k'])
    have oky: "frac_ok ?y" by (rule valid_matrixD(7) [OF v1 j k'])
    from multiply_val [OF oky s] obtain z where
      z: "multiply ?y s = Inr z" "frac_ok z" "toNumber z = toNumber ?y * toNumber s" by auto
    from add_val [OF okx z(2)] obtain u where
      u: "add ?x z = Inr u" "frac_ok u" "toNumber u = toNumber ?x + toNumber z" by auto
    from set_cell_sim [OF w1 i k' u(2)] obtain h2 where
      h2: "set_cell m i k u h1 = Inr h2" "working lo hi h2 m" "same_outside lo hi h1 h2"
          "vals h2 m = (vals h1 m)[i := (vals h1 m ! i)[k := toNumber u]]" by auto
    have "toNumber u = vals h1 m ! i ! k + vals h1 m ! j ! k * toNumber s"
      using u(3) z(3) vals_nth [OF v1 i k'] vals_nth [OF v1 j k'] by simp
    then show ?thesis
      using gx gy z u h2 I same_outside_trans by auto
  qed
  from for_each_sim [where I = ?I and \<alpha> = "\<lambda>h. vals h m" and f = ?f and body = ?body
      and xs = "[0..<cols m]" and s = h, OF step]
  obtain h' where h': "for_each [0..<cols m] ?body h = Inr h'" "?I h'"
    "vals h' m = fold ?f [0..<cols m] (vals h m)"
    using w same_outside_refl by blast
  have "fold ?f [0..<cols m] (vals h m) = addmul_v (vals h m) i j (toNumber s)"
    by (rule fold_addmul_full) (use working_shape [OF w] i j ij in simp_all)
  with h' show ?thesis by (simp add: addRowMultiple_def)
qed

section \<open>Snapshots\<close>

lemma snap_ok_kept:
  assumes r: "snap_ok hi h s" and so: "same_outside lo hi h h'"
  shows "snap_ok hi h' s" and "vals h' s = vals h s" and "rows_of h' s = rows_of h s"
proof -
  from r have rg: "region hi (length h) h s" and v: "valid_matrix h s"
    by (simp_all add: snap_ok_def)
  have 1: "region hi (length h) h' s"
    by (rule region_unchanged(6) [OF rg so]) simp
  have 2: "region hi (length h') h' s"
    by (rule region_mono [OF 1]) (use so in \<open>simp_all add: same_outside_def\<close>)
  have 3: "valid_matrix h' s"
    using region_unchanged(5) [OF rg so] v by simp
  show "snap_ok hi h' s" using 2 3 by (simp add: snap_ok_def)
  show "vals h' s = vals h s"
    by (rule region_unchanged(4) [OF rg so]) simp
  show "rows_of h' s = rows_of h s"
    by (rule region_unchanged(3) [OF rg so]) simp
qed

lemma snaps_kept:
  assumes "snaps_ok hi h ops" "same_outside lo hi h h'"
  shows "snaps_ok hi h' ops" and "log_abs h' ops = log_abs h ops"
proof -
  have a: "snap_ok hi h' (matrixBefore e) \<and> vals h' (matrixBefore e) = vals h (matrixBefore e)"
    if "e \<in> set ops" for e
    using that assms(1) snap_ok_kept [OF _ assms(2)]
    by (auto simp: snaps_ok_def list_all_iff)
  have b: "snap_ok hi h' s \<and> vals h' s = vals h s"
    if "e \<in> set ops" "matrixAfter e = Some s" for e s
    using that assms(1) snap_ok_kept [OF _ assms(2), of s]
    by (fastforce simp: snaps_ok_def list_all_iff)
  show "snaps_ok hi h' ops"
    using a b by (auto simp: snaps_ok_def list_all_iff split: option.splits)
  have "map_option (vals h') (matrixAfter e) = map_option (vals h) (matrixAfter e)"
    if "e \<in> set ops" for e
    using b [OF that] by (cases "matrixAfter e") auto
  then show "log_abs h' ops = log_abs h ops"
    using a by (simp add: log_abs_def)
qed

lemma working_kept_append:
  assumes w: "working lo hi h m"
  shows "working lo hi (h @ xs) m" and "vals (h @ xs) m = vals h m"
proof -
  note r = workingD(1) [OF w]
  have so: "same_outside hi hi h (h @ xs)" by (rule same_outside_append)
  note u = region_unchanged [OF r so]
  have 1: "region lo hi (h @ xs) m" by (rule u(6)) simp
  have 2: "valid_matrix (h @ xs) m" using u(5) workingD(2) [OF w] by simp
  have 3: "row_addrs (h @ xs) m = row_addrs h m" by (rule u(2)) simp
  show "working lo hi (h @ xs) m"
    using 1 2 3 workingD(3) [OF w] by (simp add: working_def)
  show "vals (h @ xs) m = vals h m" by (rule u(4)) simp
qed

text \<open>A snapshot of the working matrix.\<close>

lemma snapshot:
  assumes w: "working lo hi h m"
  shows "\<exists>snap h'. clone m h = Inr (snap, h') \<and> working lo hi h' m \<and> vals h' m = vals h m \<and>
           same_outside lo hi h h' \<and> snap_ok hi h' snap \<and> vals h' snap = vals h m \<and>
           (\<forall>ops. snaps_ok hi h ops \<longrightarrow> snaps_ok hi h' ops \<and> log_abs h' ops = log_abs h ops)"
proof -
  note v = workingD(2) [OF w]
  note vd = valid_matrixD [OF v]
  from clone_eq [OF vd(1) vd(2)] obtain snap h' where c: "clone m h = Inr (snap, h')" by simp
  note cp = clone_props [OF c]
  from cp(1) obtain xs where xs: "h' = h @ xs" by auto
  have hi: "hi \<le> length h" using regionD(4) [OF workingD(1) [OF w]] .
  have so: "same_outside lo hi h h'" unfolding xs by (rule same_outside_append)
  have r: "region hi (length h') h' snap"
    by (rule region_mono [OF cp(2)]) (use hi in simp_all)
  have "vals h' snap = vals h m" using cp(4) by (simp add: vals_def)
  moreover have "snap_ok hi h' snap" using r cp(7) [OF v] by (simp add: snap_ok_def)
  ultimately show ?thesis
    using c working_kept_append [OF w, of xs] so snaps_kept [OF _ so] xs by auto
qed

lemma recordOperation_sim:
  assumes "log_inv lo hi m (ops, h)"
  shows "\<exists>ops' h'. recordOperation tr m p (ops, h) = Inr (ops', h') \<and> log_inv lo hi m (ops', h') \<and>
           same_outside lo hi h h' \<and> vals h' m = vals h m \<and>
           log_abs h' ops' = record_v tr (op_abs p) (vals h m) (log_abs h ops)"
proof (cases tr)
  case False
  then show ?thesis
    using assms by (simp add: recordOperation_def record_v_def same_outside_refl)
next
  case True
  from assms have w: "working lo hi h m" and sn: "snaps_ok hi h ops"
    by (simp_all add: log_inv_def)
  from snapshot [OF w] obtain snap h' where
    c: "clone m h = Inr (snap, h')" "working lo hi h' m" "vals h' m = vals h m"
       "same_outside lo hi h h'" "snap_ok hi h' snap" "vals h' snap = vals h m"
       "snaps_ok hi h' ops" "log_abs h' ops = log_abs h ops"
    using sn by blast
  let ?e = "\<lparr>params = p, matrixBefore = snap, matrixAfter = None\<rparr>"
  have "snaps_ok hi h' (ops @ [?e])"
    using c(5,7) by (simp add: snaps_ok_def)
  moreover have "log_abs h' (ops @ [?e]) = record_v True (op_abs p) (vals h m) (log_abs h ops)"
    using c(6,8) by (simp add: log_abs_def record_v_def)
  ultimately show ?thesis
    using True c by (simp add: recordOperation_def log_inv_def)
qed

lemma updateLastOperation_sim:
  assumes "log_inv lo hi m (ops, h)"
  shows "\<exists>ops' h'. updateLastOperation tr m (ops, h) = Inr (ops', h') \<and> log_inv lo hi m (ops', h') \<and>
           same_outside lo hi h h' \<and> vals h' m = vals h m \<and>
           log_abs h' ops' = update_v tr (vals h m) (log_abs h ops)"
proof (cases "\<not> tr \<or> ops = []")
  case True
  then show ?thesis
    using assms by (auto simp: updateLastOperation_def update_v_def same_outside_refl log_abs_def)
next
  case False
  from assms have w: "working lo hi h m" and sn: "snaps_ok hi h ops"
    by (simp_all add: log_inv_def)
  from snapshot [OF w] obtain snap h' where
    c: "clone m h = Inr (snap, h')" "working lo hi h' m" "vals h' m = vals h m"
       "same_outside lo hi h h'" "snap_ok hi h' snap" "vals h' snap = vals h m"
       "snaps_ok hi h' ops" "log_abs h' ops = log_abs h ops"
    using sn by blast
  let ?e = "(last ops)\<lparr>matrixAfter := Some snap\<rparr>"
  from False obtain bs l where ops: "ops = bs @ [l]" by (metis append_butlast_last_id)
  have "snaps_ok hi h' (butlast ops @ [?e])"
    using c(5,7) by (simp add: snaps_ok_def ops)
  moreover have "log_abs h' (butlast ops @ [?e]) = update_v tr (vals h m) (log_abs h ops)"
    using c(6,8) False by (simp add: log_abs_def update_v_def ops)
  ultimately show ?thesis
    using False c by (simp add: updateLastOperation_def log_inv_def)
qed

text \<open>A row operation between the two snapshots of its log entry.\<close>

lemma logged_operation:
  assumes inv: "log_inv lo hi m (ops, h)"
    and op: "\<And>h1. working lo hi h1 m \<Longrightarrow> vals h1 m = vals h m \<Longrightarrow>
               \<exists>h2. run h1 = Inr h2 \<and> working lo hi h2 m \<and> same_outside lo hi h1 h2 \<and>
                    vals h2 m = F (vals h m)"
  shows "\<exists>ops' h'. bind_e (recordOperation tr m p (ops, h))
                     (\<lambda>(ops1, h1). bind_e (run h1) (\<lambda>h2. updateLastOperation tr m (ops1, h2)))
                   = Inr (ops', h') \<and>
           log_inv lo hi m (ops', h') \<and> same_outside lo hi h h' \<and> vals h' m = F (vals h m) \<and>
           log_abs h' ops' =
             update_v tr (F (vals h m)) (record_v tr (op_abs p) (vals h m) (log_abs h ops))"
proof -
  from recordOperation_sim [OF inv, of tr p] obtain ops1 h1 where
    r: "recordOperation tr m p (ops, h) = Inr (ops1, h1)" "log_inv lo hi m (ops1, h1)"
       "same_outside lo hi h h1" "vals h1 m = vals h m"
       "log_abs h1 ops1 = record_v tr (op_abs p) (vals h m) (log_abs h ops)" by blast
  from r(2) have w1: "working lo hi h1 m" and sn1: "snaps_ok hi h1 ops1"
    by (simp_all add: log_inv_def)
  from op [OF w1 r(4)] obtain h2 where
    o: "run h1 = Inr h2" "working lo hi h2 m" "same_outside lo hi h1 h2" "vals h2 m = F (vals h m)"
    by blast
  have inv2: "log_inv lo hi m (ops1, h2)"
    using o(2) snaps_kept(1) [OF sn1 o(3)] by (simp add: log_inv_def)
  have l2: "log_abs h2 ops1 = log_abs h1 ops1" by (rule snaps_kept(2) [OF sn1 o(3)])
  from updateLastOperation_sim [OF inv2, of tr] obtain ops3 h3 where
    u: "updateLastOperation tr m (ops1, h2) = Inr (ops3, h3)" "log_inv lo hi m (ops3, h3)"
       "same_outside lo hi h2 h3" "vals h3 m = vals h2 m"
       "log_abs h3 ops3 = update_v tr (vals h2 m) (log_abs h2 ops1)" by blast
  have "same_outside lo hi h h3"
    using r(3) o(3) u(3) same_outside_trans by blast
  then show ?thesis
    using r o u l2 by simp
qed

section \<open>The pivot search\<close>

lemma pivot_fold_inv:
  assumes "cur < b"
  shows "cur \<le> fst (pivot_fold M col cur b) \<and> fst (pivot_fold M col cur b) < b \<and>
         snd (pivot_fold M col cur b) = \<bar>M ! fst (pivot_fold M col cur b) ! col\<bar> \<and>
         (\<forall>r. cur \<le> r \<and> r < b \<longrightarrow> \<bar>M ! r ! col\<bar> \<le> snd (pivot_fold M col cur b)) \<and>
         (\<forall>r. cur \<le> r \<and> r < fst (pivot_fold M col cur b) \<longrightarrow>
              \<bar>M ! r ! col\<bar> < snd (pivot_fold M col cur b))"
  using assms
proof (induction b)
  case 0
  then show ?case by simp
next
  case (Suc b)
  show ?case
  proof (cases "cur = b")
    case True
    then show ?thesis by (auto simp: pivot_fold_def le_less_Suc_eq)
  next
    case False
    with Suc.prems have cb: "cur < b" by simp
    note IH = Suc.IH [OF cb]
    obtain p mx where pm: "pivot_fold M col cur b = (p, mx)" by (cases "pivot_fold M col cur b")
    have step: "pivot_fold M col cur (Suc b) =
                (if \<bar>M ! b ! col\<bar> > mx then (b, \<bar>M ! b ! col\<bar>) else (p, mx))"
      using cb pm by (simp add: pivot_fold_def)
    show ?thesis
    proof (cases "\<bar>M ! b ! col\<bar> > mx")
      case True
      then show ?thesis
        using IH pm step cb by (auto simp: less_Suc_eq)
    next
      case False
      then show ?thesis
        using IH pm step cb by (auto simp: less_Suc_eq)
    qed
  qed
qed

lemma find_pivot_v_fold: "find_pivot_v M col cur = fst (pivot_fold M col cur (length M))"
  by (simp add: find_pivot_v_def pivot_fold_def)

lemma find_pivot_v_props:
  assumes "cur < length M"
  shows "cur \<le> find_pivot_v M col cur" and "find_pivot_v M col cur < length M"
    and "\<And>r. cur \<le> r \<Longrightarrow> r < length M \<Longrightarrow> \<bar>M ! r ! col\<bar> \<le> \<bar>M ! find_pivot_v M col cur ! col\<bar>"
    and "\<And>r. cur \<le> r \<Longrightarrow> r < find_pivot_v M col cur \<Longrightarrow>
            \<bar>M ! r ! col\<bar> < \<bar>M ! find_pivot_v M col cur ! col\<bar>"
  using pivot_fold_inv [OF assms, of M col] by (auto simp: find_pivot_v_fold)

lemma for_each_pure:
  assumes "\<And>x s. x \<in> set xs \<Longrightarrow> body x s = Inr (f x s)"
  shows "for_each xs body s = Inr (fold f xs s)"
  using assms by (induction xs arbitrary: s) simp_all

lemma find_pivot_sim:
  assumes v: "valid_matrix h m" and cur: "cur < rows m" and col: "col < cols m"
  shows "find_pivot m col cur h = Inr (find_pivot_v (vals h m) col cur)"
proof -
  let ?M = "vals h m"
  let ?f = "\<lambda>row (p, mx). if \<bar>?M ! row ! col\<bar> > mx then (row, \<bar>?M ! row ! col\<bar>) else (p, mx)"
  let ?body = "\<lambda>row (pivotRow, maxVal).
                  bind_e (get m row col h) (\<lambda>y.
                    let val = \<bar>toNumber y\<bar>
                    in if val > maxVal then Inr (row, val) else Inr (pivotRow, maxVal))"
  have step: "?body row s = Inr (?f row s)" if "row \<in> set [Suc cur..<rows m]" for row s
  proof -
    from that have r: "row < rows m" by simp
    show ?thesis
      using get_valid [OF v r col] vals_nth [OF v r col]
      by (cases s) (simp add: Let_def)
  qed
  have run: "for_each [Suc cur..<rows m] ?body s = Inr (fold ?f [Suc cur..<rows m] s)" for s
    by (rule for_each_pure) (rule step)
  show ?thesis
    using get_valid [OF v cur col] vals_nth [OF v cur col] vals_shape(1) [OF v]
    by (simp add: find_pivot_def run find_pivot_v_def split: prod.splits)
qed

section \<open>Elimination\<close>

lemma log_invD:
  assumes "log_inv lo hi m (ops, h)"
  shows "working lo hi h m" "snaps_ok hi h ops" "valid_matrix h m"
  using assms by (simp_all add: log_inv_def working_def)

lemma eliminate_sim:
  assumes inv: "log_inv lo hi m (ops, h)" and cur: "cur < rows m" and col: "col < cols m"
  shows "\<exists>ops' h'. eliminate m tr col cur (ops, h) = Inr (ops', h') \<and>
           log_inv lo hi m (ops', h') \<and> same_outside lo hi h h' \<and>
           (log_abs h' ops', vals h' m) = eliminate_v tr col cur (log_abs h ops, vals h m)"
proof -
  let ?I = "\<lambda>s. log_inv lo hi m s \<and> same_outside lo hi h (snd s)"
  let ?\<alpha> = "\<lambda>s. (log_abs (snd s) (fst s), vals (snd s) m)"
  let ?f = "\<lambda>row (lg, M).
             if row \<noteq> cur \<and> M ! row ! col \<noteq> 0 then
               (update_v tr (addmul_v M row cur (- (M ! row ! col)))
                  (record_v tr (AddV row cur (- (M ! row ! col))) M lg),
                addmul_v M row cur (- (M ! row ! col)))
             else (lg, M)"
  let ?body = "\<lambda>row (ops, h).
          if row \<noteq> cur then
            bind_e (get m row col h) (\<lambda>x.
              if \<not> isZero x then
                bind_e (negate x) (\<lambda>factor.
                bind_e (recordOperation tr m (OpAdd row cur factor) (ops, h))
                  (\<lambda>(ops1, h1).
                bind_e (addRowMultiple m row cur factor h1) (\<lambda>h2.
                  updateLastOperation tr m (ops1, h2))))
              else Inr (ops, h))
          else Inr (ops, h)"
  have step: "\<exists>s'. ?body row s = Inr s' \<and> ?I s' \<and> ?\<alpha> s' = ?f row (?\<alpha> s)"
    if row: "row \<in> set [0..<rows m]" and I: "?I s" for row s
  proof -
    obtain ops1 h1 where s: "s = (ops1, h1)" by (cases s)
    from I s have inv1: "log_inv lo hi m (ops1, h1)" and so1: "same_outside lo hi h h1" by simp_all
    note w1 = log_invD(1) [OF inv1] and v1 = log_invD(3) [OF inv1]
    from row have r: "row < rows m" by simp
    let ?x = "rows_of h1 m ! row ! col"
    have g: "get m row col h1 = Inr ?x" by (rule get_valid [OF v1 r col])
    have okx: "frac_ok ?x" by (rule valid_matrixD(7) [OF v1 r col])
    have xv: "vals h1 m ! row ! col = toNumber ?x" by (rule vals_nth [OF v1 r col])
    show ?thesis
    proof (cases "row \<noteq> cur \<and> \<not> isZero ?x")
      case False
      then show ?thesis
        using g s I isZero_val [OF okx] xv by auto
    next
      case True
      from negate_val [OF okx] obtain factor where
        fa: "negate ?x = Inr factor" "frac_ok factor" "toNumber factor = - toNumber ?x" by auto
      have op: "\<exists>h3. addRowMultiple m row cur factor h2 = Inr h3 \<and> working lo hi h3 m \<and>
                  same_outside lo hi h2 h3 \<and>
                  vals h3 m = addmul_v (vals h1 m) row cur (toNumber factor)"
        if "working lo hi h2 m" "vals h2 m = vals h1 m" for h2
        using addRowMultiple_sim [OF that(1) r cur _ fa(2)] True that(2) by simp
      from logged_operation [where run = "addRowMultiple m row cur factor"
          and F = "\<lambda>M. addmul_v M row cur (toNumber factor)"
          and p = "OpAdd row cur factor" and tr = tr, OF inv1 op]
      obtain ops' h' where
        l: "bind_e (recordOperation tr m (OpAdd row cur factor) (ops1, h1))
              (\<lambda>(ops1, h1). bind_e (addRowMultiple m row cur factor h1)
                 (\<lambda>h2. updateLastOperation tr m (ops1, h2))) = Inr (ops', h')"
           "log_inv lo hi m (ops', h')" "same_outside lo hi h1 h'"
           "vals h' m = addmul_v (vals h1 m) row cur (toNumber factor)"
           "log_abs h' ops' =
              update_v tr (addmul_v (vals h1 m) row cur (toNumber factor))
                (record_v tr (op_abs (OpAdd row cur factor)) (vals h1 m) (log_abs h1 ops1))"
        by blast
      have nz: "vals h1 m ! row ! col \<noteq> 0"
        using True isZero_val [OF okx] xv by simp
      have "?body row s = Inr (ops', h')"
        using True g fa(1) l(1) s by simp
      moreover have "?I (ops', h')"
        using l(2,3) so1 same_outside_trans by auto
      moreover have "?\<alpha> (ops', h') = ?f row (?\<alpha> s)"
        using True nz l(4,5) fa(3) xv s by (simp add: op_abs_def)
      ultimately show ?thesis by blast
    qed
  qed
  from for_each_sim [where I = ?I and \<alpha> = ?\<alpha> and f = ?f and body = ?body
      and xs = "[0..<rows m]" and s = "(ops, h)", OF step]
  obtain s' where s': "for_each [0..<rows m] ?body (ops, h) = Inr s'" "?I s'"
    "?\<alpha> s' = fold ?f [0..<rows m] (?\<alpha> (ops, h))"
    using inv same_outside_refl by auto
  obtain ops' h' where p: "s' = (ops', h')" by (cases s')
  have len: "length (vals h m) = rows m" by (rule vals_shape(1) [OF log_invD(3) [OF inv]])
  show ?thesis
    using s' p len by (simp add: eliminate_def eliminate_v_def)
qed

section \<open>One pass of the loop over the columns\<close>

lemma swap_stage:
  assumes inv: "log_inv lo hi m (ops, h)" and cur: "cur < rows m" and p: "p < rows m"
  shows "\<exists>ops2 h2.
           (if p \<noteq> cur then
              bind_e (recordOperation tr m (OpSwap cur p) (ops, h)) (\<lambda>(ops1, h1).
              bind_e (swapRows m cur p h1) (\<lambda>h2. updateLastOperation tr m (ops1, h2)))
            else Inr (ops, h)) = Inr (ops2, h2) \<and>
           log_inv lo hi m (ops2, h2) \<and> same_outside lo hi h h2 \<and>
           (log_abs h2 ops2, vals h2 m) =
             (if p \<noteq> cur
              then (update_v tr (swap_v (vals h m) cur p)
                      (record_v tr (SwapV cur p) (vals h m) (log_abs h ops)),
                    swap_v (vals h m) cur p)
              else (log_abs h ops, vals h m))"
proof (cases "p \<noteq> cur")
  case False
  then show ?thesis using inv by (simp add: same_outside_refl)
next
  case True
  have op: "\<exists>h3. swapRows m cur p h2 = Inr h3 \<and> working lo hi h3 m \<and>
              same_outside lo hi h2 h3 \<and> vals h3 m = swap_v (vals h m) cur p"
    if "working lo hi h2 m" "vals h2 m = vals h m" for h2
    using swapRows_sim [OF that(1) cur p] that(2) by simp
  from logged_operation [where run = "swapRows m cur p" and F = "\<lambda>M. swap_v M cur p"
      and p = "OpSwap cur p" and tr = tr, OF inv op]
  show ?thesis using True by (simp add: op_abs_def) blast
qed

lemma scale_stage:
  assumes inv: "log_inv lo hi m (ops, h)" and cur: "cur < rows m"
    and pv: "frac_ok pivot" "\<not> isZero pivot"
  shows "\<exists>ops4 h4.
           (if \<not> equals pivot \<lparr>numerator = 1, denominator = 1\<rparr> then
              bind_e (divide_frac \<lparr>numerator = 1, denominator = 1\<rparr> pivot) (\<lambda>scalar.
              bind_e (recordOperation tr m (OpScale cur scalar) (ops, h)) (\<lambda>(ops3, h3).
              bind_e (multiplyRow m cur scalar h3) (\<lambda>h4.
                updateLastOperation tr m (ops3, h4))))
            else Inr (ops, h)) = Inr (ops4, h4) \<and>
           log_inv lo hi m (ops4, h4) \<and> same_outside lo hi h h4 \<and>
           (log_abs h4 ops4, vals h4 m) =
             (if toNumber pivot \<noteq> 1
              then (update_v tr (scale_v (vals h m) cur (1 / toNumber pivot))
                      (record_v tr (ScaleV cur (1 / toNumber pivot)) (vals h m) (log_abs h ops)),
                    scale_v (vals h m) cur (1 / toNumber pivot))
              else (log_abs h ops, vals h m))"
proof (cases "toNumber pivot \<noteq> 1")
  case False
  then show ?thesis
    using inv equals_one_val [OF pv(1)] by (simp add: same_outside_refl)
next
  case True
  from divide_val [OF frac_ok_one pv] obtain scalar where
    sc: "divide_frac \<lparr>numerator = 1, denominator = 1\<rparr> pivot = Inr scalar" "frac_ok scalar"
        "toNumber scalar = toNumber \<lparr>numerator = 1, denominator = 1\<rparr> / toNumber pivot"
    by auto
  have sv: "toNumber scalar = 1 / toNumber pivot"
    using sc(3) by (simp add: toNumber_def)
  have op: "\<exists>h3. multiplyRow m cur scalar h2 = Inr h3 \<and> working lo hi h3 m \<and>
              same_outside lo hi h2 h3 \<and> vals h3 m = scale_v (vals h m) cur (toNumber scalar)"
    if "working lo hi h2 m" "vals h2 m = vals h m" for h2
    using multiplyRow_sim [OF that(1) cur sc(2)] that(2) by simp
  from logged_operation [where run = "multiplyRow m cur scalar"
      and F = "\<lambda>M. scale_v M cur (toNumber scalar)"
      and p = "OpScale cur scalar" and tr = tr, OF inv op]
  show ?thesis
    using True equals_one_val [OF pv(1)] sc(1) sv by (simp add: op_abs_def) blast
qed

lemma swap_v_pivot:
  assumes "cur < length M" "p < length M"
  shows "(if p \<noteq> cur then swap_v M cur p else M) ! cur = M ! p"
  using assms by (simp add: swap_v_def nth_list_update)

lemma step_v_pivot:
  assumes "M ! find_pivot_v M col cur ! col \<noteq> 0"
    and "s2 = (if find_pivot_v M col cur \<noteq> cur
               then (update_v tr (swap_v M cur (find_pivot_v M col cur))
                       (record_v tr (SwapV cur (find_pivot_v M col cur)) M lg),
                     swap_v M cur (find_pivot_v M col cur))
               else (lg, M))"
    and "pv = snd s2 ! cur ! col"
    and "s4 = (if pv \<noteq> 1
               then (update_v tr (scale_v (snd s2) cur (1 / pv))
                       (record_v tr (ScaleV cur (1 / pv)) (snd s2) (fst s2)),
                     scale_v (snd s2) cur (1 / pv))
               else s2)"
    and "s5 = eliminate_v tr col cur s4"
  shows "step_v tr col (cur, pivs, lg, M) = (cur + 1, pivs @ [col], fst s5, snd s5)"
  using assms(1) unfolding assms(2-5) by (simp add: step_v_def Let_def)

lemma step_sim:
  assumes inv: "log_inv lo hi m (ops, h)" and cur: "cur < rows m" and col: "col < cols m"
  shows "\<exists>cur' pivs' ops' h'.
           rref_step m tr col (cur, pivs, ops, h) = Inr (cur', pivs', ops', h') \<and>
           log_inv lo hi m (ops', h') \<and> same_outside lo hi h h' \<and>
           state_abs m (cur', pivs', ops', h') = step_v tr col (state_abs m (cur, pivs, ops, h))"
proof -
  let ?M = "vals h m" and ?lg = "log_abs h ops"
  let ?p = "find_pivot_v ?M col cur"
  note v = log_invD(3) [OF inv]
  have len: "length ?M = rows m" by (rule vals_shape(1) [OF v])
  have fp: "find_pivot m col cur h = Inr ?p" by (rule find_pivot_sim [OF v cur col])
  have p: "?p < rows m" using find_pivot_v_props(2) [of cur ?M col] cur len by simp
  let ?x = "rows_of h m ! ?p ! col"
  have g: "get m ?p col h = Inr ?x" by (rule get_valid [OF v p col])
  have okx: "frac_ok ?x" by (rule valid_matrixD(7) [OF v p col])
  have xv: "?M ! ?p ! col = toNumber ?x" by (rule vals_nth [OF v p col])
  show ?thesis
  proof (cases "isZero ?x")
    case True
    then have "?M ! ?p ! col = 0" using isZero_val [OF okx] xv by simp
    then show ?thesis
      using True fp g inv
      by (simp add: rref_step_def step_v_def state_abs_def same_outside_refl)
  next
    case False
    then have nz: "?M ! ?p ! col \<noteq> 0" using isZero_val [OF okx] xv by simp
    from swap_stage [OF inv cur p, of tr] obtain ops2 h2 where
      s2: "(if ?p \<noteq> cur then
              bind_e (recordOperation tr m (OpSwap cur ?p) (ops, h)) (\<lambda>(ops1, h1).
              bind_e (swapRows m cur ?p h1) (\<lambda>h2. updateLastOperation tr m (ops1, h2)))
            else Inr (ops, h)) = Inr (ops2, h2)"
          "log_inv lo hi m (ops2, h2)" "same_outside lo hi h h2"
          "(log_abs h2 ops2, vals h2 m) =
             (if ?p \<noteq> cur
              then (update_v tr (swap_v ?M cur ?p) (record_v tr (SwapV cur ?p) ?M ?lg),
                    swap_v ?M cur ?p)
              else (?lg, ?M))"
      by blast
    note v2 = log_invD(3) [OF s2(2)]
    let ?pivot = "rows_of h2 m ! cur ! col"
    have g2: "get m cur col h2 = Inr ?pivot" by (rule get_valid [OF v2 cur col])
    have okp: "frac_ok ?pivot" by (rule valid_matrixD(7) [OF v2 cur col])
    have M2: "vals h2 m = (if ?p \<noteq> cur then swap_v ?M cur ?p else ?M)"
      using s2(4) by (simp split: if_splits)
    have pv: "toNumber ?pivot = ?M ! ?p ! col"
      using vals_nth [OF v2 cur col] M2 swap_v_pivot [of cur ?M ?p] cur p len by simp
    have nzp: "\<not> isZero ?pivot" using isZero_val [OF okp] pv nz by simp
    from scale_stage [OF s2(2) cur okp nzp, of tr] obtain ops4 h4 where
      s4: "(if \<not> equals ?pivot \<lparr>numerator = 1, denominator = 1\<rparr> then
              bind_e (divide_frac \<lparr>numerator = 1, denominator = 1\<rparr> ?pivot) (\<lambda>scalar.
              bind_e (recordOperation tr m (OpScale cur scalar) (ops2, h2)) (\<lambda>(ops3, h3).
              bind_e (multiplyRow m cur scalar h3) (\<lambda>h4.
                updateLastOperation tr m (ops3, h4))))
            else Inr (ops2, h2)) = Inr (ops4, h4)"
          "log_inv lo hi m (ops4, h4)" "same_outside lo hi h2 h4"
          "(log_abs h4 ops4, vals h4 m) =
             (if toNumber ?pivot \<noteq> 1
              then (update_v tr (scale_v (vals h2 m) cur (1 / toNumber ?pivot))
                      (record_v tr (ScaleV cur (1 / toNumber ?pivot)) (vals h2 m) (log_abs h2 ops2)),
                    scale_v (vals h2 m) cur (1 / toNumber ?pivot))
              else (log_abs h2 ops2, vals h2 m))"
      by blast
    from eliminate_sim [OF s4(2) cur col, of tr] obtain ops5 h5 where
      s5: "eliminate m tr col cur (ops4, h4) = Inr (ops5, h5)"
          "log_inv lo hi m (ops5, h5)" "same_outside lo hi h4 h5"
          "(log_abs h5 ops5, vals h5 m) = eliminate_v tr col cur (log_abs h4 ops4, vals h4 m)"
      by blast
    have run: "rref_step m tr col (cur, pivs, ops, h) = Inr (cur + 1, pivs @ [col], ops5, h5)"
      using fp g False s2(1) g2 s4(1) s5(1) by (simp add: rref_step_def one_new)
    have so: "same_outside lo hi h h5"
      using s2(3) s4(3) s5(3) same_outside_trans by blast
    define s2v where "s2v = (log_abs h2 ops2, vals h2 m)"
    define s4v where "s4v = (log_abs h4 ops4, vals h4 m)"
    define s5v where "s5v = (log_abs h5 ops5, vals h5 m)"
    have e2: "s2v = (if ?p \<noteq> cur
              then (update_v tr (swap_v ?M cur ?p) (record_v tr (SwapV cur ?p) ?M ?lg),
                    swap_v ?M cur ?p)
              else (?lg, ?M))"
      unfolding s2v_def by (rule s2(4))
    have pv2: "toNumber ?pivot = snd s2v ! cur ! col"
      using vals_nth [OF v2 cur col] by (simp add: s2v_def)
    have e4: "s4v = (if toNumber ?pivot \<noteq> 1
               then (update_v tr (scale_v (snd s2v) cur (1 / toNumber ?pivot))
                       (record_v tr (ScaleV cur (1 / toNumber ?pivot)) (snd s2v) (fst s2v)),
                     scale_v (snd s2v) cur (1 / toNumber ?pivot))
               else s2v)"
      using s4(4) by (simp add: s4v_def s2v_def)
    have e5: "s5v = eliminate_v tr col cur s4v"
      using s5(4) by (simp add: s5v_def s4v_def)
    have "step_v tr col (cur, pivs, ?lg, ?M) = (cur + 1, pivs @ [col], fst s5v, snd s5v)"
      by (rule step_v_pivot [OF nz e2 pv2 e4 e5])
    then have abs: "state_abs m (cur + 1, pivs @ [col], ops5, h5) =
               step_v tr col (state_abs m (cur, pivs, ops, h))"
      by (simp add: state_abs_def s5v_def)
    show ?thesis using run s5(2) so abs by blast
  qed
qed

section \<open>The loop over the columns and computeRREF\<close>

lemma loop_sim:
  assumes "log_inv lo hi m (ops, h)"
  shows "\<exists>cur' pivs' ops' h'.
           rref_loop m tr col (cur, pivs, ops, h) = Inr (cur', pivs', ops', h') \<and>
           log_inv lo hi m (ops', h') \<and> same_outside lo hi h h' \<and>
           state_abs m (cur', pivs', ops', h') =
             loop_v tr (cols m) col (state_abs m (cur, pivs, ops, h))"
  using assms
proof (induction "cols m - col" arbitrary: col cur pivs ops h)
  case 0
  then have "\<not> col < cols m" by simp
  then show ?case
    using "0.prems"
    by (subst rref_loop.simps, subst loop_v.simps) (simp add: same_outside_refl)
next
  case (Suc k)
  note v = log_invD(3) [OF Suc.prems]
  have len: "length (vals h m) = rows m" by (rule vals_shape(1) [OF v])
  show ?case
  proof (cases "cur < rows m")
    case False
    then show ?thesis
      using Suc.prems len
      by (subst rref_loop.simps, subst loop_v.simps) (simp add: same_outside_refl state_abs_def)
  next
    case True
    from Suc.hyps have col: "col < cols m" by simp
    from step_sim [OF Suc.prems True col, of tr pivs] obtain cur1 pivs1 ops1 h1 where
      s1: "rref_step m tr col (cur, pivs, ops, h) = Inr (cur1, pivs1, ops1, h1)"
          "log_inv lo hi m (ops1, h1)" "same_outside lo hi h h1"
          "state_abs m (cur1, pivs1, ops1, h1) = step_v tr col (state_abs m (cur, pivs, ops, h))"
      by blast
    have k: "k = cols m - (col + 1)" using Suc.hyps by simp
    from Suc.hyps(1) [OF k s1(2), of cur1 pivs1] obtain cur' pivs' ops' h' where
      s': "rref_loop m tr (col + 1) (cur1, pivs1, ops1, h1) = Inr (cur', pivs', ops', h')"
          "log_inv lo hi m (ops', h')" "same_outside lo hi h1 h'"
          "state_abs m (cur', pivs', ops', h') =
             loop_v tr (cols m) (col + 1) (state_abs m (cur1, pivs1, ops1, h1))"
      by blast
    have run: "rref_loop m tr col (cur, pivs, ops, h) = Inr (cur', pivs', ops', h')"
      using True col s1(1) s'(1) by (subst rref_loop.simps) simp
    have "loop_v tr (cols m) col (state_abs m (cur, pivs, ops, h)) =
          loop_v tr (cols m) (col + 1) (step_v tr col (state_abs m (cur, pivs, ops, h)))"
      using True col len by (subst loop_v.simps) (simp add: state_abs_def)
    then have abs: "state_abs m (cur', pivs', ops', h') =
                    loop_v tr (cols m) col (state_abs m (cur, pivs, ops, h))"
      using s'(4) s1(4) by simp
    show ?thesis
      using run s'(2) abs same_outside_trans [OF s1(3) s'(3)] by blast
  qed
qed

text \<open>
  computeRREF on a valid Matrix: it returns, it touches no object that existed before
  the call, and its results are those of the description on values.
\<close>

lemma computeRREF_sim:
  assumes v: "valid_matrix h A"
  shows "\<exists>res h' cur ops.
           computeRREF A tr h = Inr (res, h') \<and>
           same_outside (length h) (length h + rows A + 1) h h' \<and>
           log_inv (length h) (length h + rows A + 1) (rref res) (ops, h') \<and>
           rows (rref res) = rows A \<and> cols (rref res) = cols A \<and>
           operations res = (if tr then Some ops else None) \<and>
           (cur, pivots res, log_abs h' ops, vals h' (rref res)) = rref_v tr (cols A) (vals h A)"
proof -
  note vd = valid_matrixD [OF v]
  from clone_eq [OF vd(1) vd(2)] obtain m h1 where c: "clone A h = Inr (m, h1)" by simp
  note cp = clone_props [OF c]
  have l1: "length h1 = length h + rows A + 1"
    using c clone_eq [OF vd(1) vd(2)] vd(4) by auto
  have w: "working (length h) (length h + rows A + 1) h1 m"
    using cp(2,3) cp(7) [OF v] l1 by (simp add: working_def)
  have inv: "log_inv (length h) (length h + rows A + 1) m ([], h1)"
    using w by (simp add: log_inv_def snaps_ok_def)
  have va: "vals h1 m = vals h A" using cp(4) by (simp add: vals_def)
  from cp(1) obtain xs where "h1 = h @ xs" by auto
  then have so1: "same_outside (length h) (length h + rows A + 1) h h1"
    by (simp add: same_outside_append)
  from loop_sim [OF inv, of tr 0 0 "[]"] obtain cur pivs ops h' where
    l: "rref_loop m tr 0 (0, [], [], h1) = Inr (cur, pivs, ops, h')"
       "log_inv (length h) (length h + rows A + 1) m (ops, h')"
       "same_outside (length h) (length h + rows A + 1) h1 h'"
       "state_abs m (cur, pivs, ops, h') = loop_v tr (cols m) 0 (state_abs m (0, [], [], h1))"
    by blast
  let ?res = "\<lparr>rref = m, pivots = pivs, operations = (if tr then Some ops else None)\<rparr>"
  have run: "computeRREF A tr h = Inr (?res, h')"
    using c l(1) by (simp add: computeRREF_def)
  have abs: "(cur, pivs, log_abs h' ops, vals h' m) = rref_v tr (cols A) (vals h A)"
    using l(4) va cp(6) by (simp add: state_abs_def rref_v_def log_abs_def)
  show ?thesis
    by (rule exI [of _ ?res], rule exI [of _ h'], rule exI [of _ cur], rule exI [of _ ops])
       (use run same_outside_trans [OF so1 l(3)] l(2) cp(5,6) abs in simp)
qed

section \<open>The choice of the pivot\<close>



section \<open>What computeRREF can write\<close>

lemma framed_step:
  "framed lo hi m h0 h \<Longrightarrow> region lo hi h' m \<Longrightarrow> same_outside lo hi h h' \<Longrightarrow>
   framed lo hi m h0 h'"
  using same_outside_trans by (auto simp: framed_def)

lemma set_cell_frame:
  assumes "framed lo hi m h0 h" "set_cell m i j v h = Inr h'"
  shows "framed lo hi m h0 h'"
proof -
  from assms(1) have r: "region lo hi h m" by (simp add: framed_def)
  from assms(2) obtain rs row where
    a: "get_data h (data m) = Inr rs" "i < length rs" "get_row h (rs ! i) = Inr row"
       "h' = h[rs ! i := ORow (row[j := v])]"
    by (auto simp: set_cell_def bind_e_eq_Inr split: if_splits)
  have "rs ! i \<in> set (row_addrs h m)" using a(1,2) by (simp add: row_addrs_def)
  from region_write_row(1,2) [OF r this, of "row[j := v]"] assms(1) a(4)
  show ?thesis using framed_step by blast
qed

lemma swapRows_frame:
  assumes "framed lo hi m h0 h" "swapRows m i j h = Inr h'"
  shows "framed lo hi m h0 h'"
proof -
  from assms(1) have r: "region lo hi h m" by (simp add: framed_def)
  from assms(2) obtain rs where
    a: "get_data h (data m) = Inr rs" "i < length rs" "j < length rs"
       "h' = h[data m := OData (rs[i := rs ! j, j := rs ! i])]"
    by (auto simp: swapRows_def bind_e_eq_Inr split: if_splits)
  have "set (rs[i := rs ! j, j := rs ! i]) \<subseteq> set (row_addrs h m)"
    using a(1,2,3) by (simp add: row_addrs_def set_swap)
  from region_write_data(1,2) [OF r this] assms(1) a(4)
  show ?thesis using framed_step by blast
qed

lemma append_frame:
  assumes "framed lo hi m h0 h"
  shows "framed lo hi m h0 (h @ xs)"
proof -
  from assms have r: "region lo hi h m" by (simp add: framed_def)
  have so: "same_outside hi hi h (h @ xs)" by (rule same_outside_append)
  have "region lo hi (h @ xs) m" by (rule region_unchanged(6) [OF r so]) simp
  then show ?thesis
    using assms framed_step same_outside_append by blast
qed

lemma clone_frame:
  assumes "framed lo hi m h0 h" "clone s h = Inr (c, h')"
  shows "framed lo hi m h0 h'"
  using clone_props(1) [OF assms(2)] append_frame [OF assms(1)] by auto

lemma multiplyRow_frame:
  assumes "framed lo hi m h0 h" "multiplyRow m i s h = Inr h'"
  shows "framed lo hi m h0 h'"
  using assms(2) unfolding multiplyRow_def
  by (rule for_each_inv [where I = "framed lo hi m h0", rotated 2])
     (auto simp: bind_e_eq_Inr assms(1) intro: set_cell_frame)

lemma addRowMultiple_frame:
  assumes "framed lo hi m h0 h" "addRowMultiple m i j s h = Inr h'"
  shows "framed lo hi m h0 h'"
  using assms(2) unfolding addRowMultiple_def
  by (rule for_each_inv [where I = "framed lo hi m h0", rotated 2])
     (auto simp: bind_e_eq_Inr assms(1) intro: set_cell_frame)

lemma recordOperation_frame:
  assumes "framed lo hi m h0 h" "recordOperation tr m p (ops, h) = Inr (ops', h')"
  shows "framed lo hi m h0 h'"
  using assms
  by (auto simp: recordOperation_def bind_e_eq_Inr split: if_splits intro: clone_frame)

lemma updateLastOperation_frame:
  assumes "framed lo hi m h0 h" "updateLastOperation tr m (ops, h) = Inr (ops', h')"
  shows "framed lo hi m h0 h'"
  using assms
  by (auto simp: updateLastOperation_def bind_e_eq_Inr split: if_splits intro: clone_frame)

lemma eliminate_frame:
  assumes "framed lo hi m h0 h" "eliminate m tr col cur (ops, h) = Inr (ops', h')"
  shows "framed lo hi m h0 h'"
proof -
  have "framed lo hi m h0 (snd (ops', h'))"
    using assms(2) unfolding eliminate_def
  proof (rule for_each_inv [where I = "\<lambda>s. framed lo hi m h0 (snd s)", rotated 2])
    show "framed lo hi m h0 (snd (ops, h))" using assms(1) by simp
  next
    fix row s s'
    assume I: "framed lo hi m h0 (snd s)"
      and b: "(case s of (ops, h) \<Rightarrow>
            if row \<noteq> cur then
              bind_e (get m row col h) (\<lambda>x.
                if \<not> isZero x then
                  bind_e (negate x) (\<lambda>factor.
                  bind_e (recordOperation tr m (OpAdd row cur factor) (ops, h))
                    (\<lambda>(ops1, h1).
                  bind_e (addRowMultiple m row cur factor h1) (\<lambda>h2.
                    updateLastOperation tr m (ops1, h2))))
                else Inr (ops, h))
            else Inr (ops, h)) = Inr s'"
    obtain o1 h1 where s: "s = (o1, h1)" by (cases s)
    obtain o2 h2 where s': "s' = (o2, h2)" by (cases s')
    from I s have I1: "framed lo hi m h0 h1" by simp
    show "framed lo hi m h0 (snd s')"
    proof (cases "row \<noteq> cur")
      case False
      then show ?thesis using b I1 s by auto
    next
      case True
      from b True s obtain x where
        x: "get m row col h1 = Inr x"
           "(if \<not> isZero x then
               bind_e (negate x) (\<lambda>factor.
               bind_e (recordOperation tr m (OpAdd row cur factor) (o1, h1))
                 (\<lambda>(ops1, h1).
               bind_e (addRowMultiple m row cur factor h1) (\<lambda>h2.
                 updateLastOperation tr m (ops1, h2))))
             else Inr (o1, h1)) = Inr s'"
        by (auto simp: bind_e_eq_Inr)
      show ?thesis
      proof (cases "isZero x")
        case True
        then show ?thesis using x(2) I1 by auto
      next
        case False
        from x(2) False obtain factor ops1 ha hb where
          st: "recordOperation tr m (OpAdd row cur factor) (o1, h1) = Inr (ops1, ha)"
              "addRowMultiple m row cur factor ha = Inr hb"
              "updateLastOperation tr m (ops1, hb) = Inr s'"
          by (auto simp: bind_e_eq_Inr)
        have "framed lo hi m h0 ha" by (rule recordOperation_frame [OF I1 st(1)])
        then have "framed lo hi m h0 hb" by (rule addRowMultiple_frame [OF _ st(2)])
        then show ?thesis
          using updateLastOperation_frame [OF _ st(3) [unfolded s']] s' by simp
      qed
    qed
  qed
  then show ?thesis by simp
qed

lemma logged_frame:
  assumes f: "framed lo hi m h0 h"
    and op: "\<And>h1 h2. framed lo hi m h0 h1 \<Longrightarrow> run h1 = Inr h2 \<Longrightarrow> framed lo hi m h0 h2"
    and r: "bind_e (recordOperation tr m p (ops, h))
              (\<lambda>(ops1, h1). bind_e (run h1) (\<lambda>h2. updateLastOperation tr m (ops1, h2)))
            = Inr (ops', h')"
  shows "framed lo hi m h0 h'"
proof -
  from r obtain ops1 h1 h2 where
    st: "recordOperation tr m p (ops, h) = Inr (ops1, h1)" "run h1 = Inr h2"
        "updateLastOperation tr m (ops1, h2) = Inr (ops', h')"
    by (auto simp: bind_e_eq_Inr)
  have "framed lo hi m h0 h1" by (rule recordOperation_frame [OF f st(1)])
  then have "framed lo hi m h0 h2" by (rule op [OF _ st(2)])
  then show ?thesis by (rule updateLastOperation_frame [OF _ st(3)])
qed

lemma rref_step_frame:
  assumes f: "framed lo hi m h0 h"
    and r: "rref_step m tr col (cur, pivs, ops, h) = Inr (cur', pivs', ops', h')"
  shows "framed lo hi m h0 h'"
proof -
  from r obtain p x where
    px: "find_pivot m col cur h = Inr p" "get m p col h = Inr x"
    by (auto simp: rref_step_def bind_e_eq_Inr)
  show ?thesis
  proof (cases "isZero x")
    case True
    then show ?thesis using r px f by (simp add: rref_step_def)
  next
    case False
    from r px False obtain ops2 h2 pivot one ops4 h4 where
      st: "(if p \<noteq> cur then
              bind_e (recordOperation tr m (OpSwap cur p) (ops, h)) (\<lambda>(ops1, h1).
              bind_e (swapRows m cur p h1) (\<lambda>h2. updateLastOperation tr m (ops1, h2)))
            else Inr (ops, h)) = Inr (ops2, h2)"
          "(if \<not> equals pivot one then
              bind_e (divide_frac one pivot) (\<lambda>scalar.
              bind_e (recordOperation tr m (OpScale cur scalar) (ops2, h2)) (\<lambda>(ops3, h3).
              bind_e (multiplyRow m cur scalar h3) (\<lambda>h4.
                updateLastOperation tr m (ops3, h4))))
            else Inr (ops2, h2)) = Inr (ops4, h4)"
          "eliminate m tr col cur (ops4, h4) = Inr (ops', h')"
      by (auto simp: rref_step_def bind_e_eq_Inr)
    have f2: "framed lo hi m h0 h2"
    proof (cases "p \<noteq> cur")
      case True
      with st(1) have sw:
        "bind_e (recordOperation tr m (OpSwap cur p) (ops, h)) (\<lambda>(ops1, h1).
           bind_e (swapRows m cur p h1) (\<lambda>h2. updateLastOperation tr m (ops1, h2)))
         = Inr (ops2, h2)" by simp
      show ?thesis
        by (rule logged_frame [where run = "swapRows m cur p", OF f _ sw])
           (rule swapRows_frame)
    next
      case False
      then show ?thesis using st(1) f by simp
    qed
    have f4: "framed lo hi m h0 h4"
    proof (cases "\<not> equals pivot one")
      case True
      from st(2) True obtain scalar where
        sc: "bind_e (recordOperation tr m (OpScale cur scalar) (ops2, h2)) (\<lambda>(ops3, h3).
              bind_e (multiplyRow m cur scalar h3) (\<lambda>h4.
                updateLastOperation tr m (ops3, h4))) = Inr (ops4, h4)"
        by (auto simp: bind_e_eq_Inr)
      show ?thesis
        by (rule logged_frame [where run = "multiplyRow m cur scalar", OF f2 _ sc])
           (rule multiplyRow_frame)
    next
      case False
      then show ?thesis using st(2) f2 by simp
    qed
    show ?thesis by (rule eliminate_frame [OF f4 st(3)])
  qed
qed

lemma rref_loop_frame:
  assumes "framed lo hi m h0 h"
    and "rref_loop m tr col (cur, pivs, ops, h) = Inr (cur', pivs', ops', h')"
  shows "framed lo hi m h0 h'"
  using assms
proof (induction "cols m - col" arbitrary: col cur pivs ops h)
  case 0
  then show ?case by (subst (asm) rref_loop.simps) simp
next
  case (Suc k)
  show ?case
  proof (cases "col < cols m \<and> cur < rows m")
    case False
    then show ?thesis
      using Suc.prems by (subst (asm) rref_loop.simps) auto
  next
    case True
    from Suc.prems(2) True obtain s1 where
      s1: "rref_step m tr col (cur, pivs, ops, h) = Inr s1"
          "rref_loop m tr (col + 1) s1 = Inr (cur', pivs', ops', h')"
      by (subst (asm) rref_loop.simps) (auto split: sum.splits)
    obtain c1 p1 o1 h1 where p: "s1 = (c1, p1, o1, h1)" by (cases s1)
    have f1: "framed lo hi m h0 h1"
      by (rule rref_step_frame [OF Suc.prems(1) s1(1) [unfolded p]])
    have k: "k = cols m - (col + 1)" using Suc.hyps by simp
    show ?thesis
      by (rule Suc.hyps(1) [OF k f1 s1(2) [unfolded p]])
  qed
qed

lemma computeRREF_writes:
  assumes "computeRREF matrix tr h = Inr (res, h')"
  shows "same_outside (length h) (length h') h h'"
    and "region (length h) (length h') h' (rref res)"
proof -
  from assms obtain m h1 cur pivs ops where
    st: "clone matrix h = Inr (m, h1)"
        "rref_loop m tr 0 (0, [], [], h1) = Inr (cur, pivs, ops, h')"
        "res = \<lparr>rref = m, pivots = pivs, operations = (if tr then Some ops else None)\<rparr>"
    by (auto simp: computeRREF_def bind_e_eq_Inr)
  note cp = clone_props [OF st(1)]
  from cp(1) obtain xs where xs: "h1 = h @ xs" by auto
  have "framed (length h) (length h1) m h h1"
    using cp(2) xs by (simp add: framed_def same_outside_append)
  from rref_loop_frame [OF this st(2)]
  have f: "region (length h) (length h1) h' m" "same_outside (length h) (length h1) h h'"
    by (simp_all add: framed_def)
  have le: "length h1 \<le> length h'" using regionD(4) [OF f(1)] .
  show "same_outside (length h) (length h') h h'"
    using f(2) le by (auto simp: same_outside_def)
  show "region (length h) (length h') h' (rref res)"
    using region_mono [OF f(1), of "length h" "length h'"] le st(3) by simp
qed

text \<open>
  C5. When computeRREF returns, every object that was in the store before the call is
  as it was, so every entry of the caller's matrix has the value it had before the
  call; the outer array and the row arrays of the returned matrix are new objects, none
  of them an array of the caller's matrix.
\<close>

theorem computeRREF_leaves_original:
  assumes "computeRREF matrix tr h = Inr (res, h')"
  shows "take (length h) h' = h \<and>
         rows_of h' matrix = rows_of h matrix \<and>
         length h \<le> data (rref res) \<and> data (rref res) \<noteq> data matrix \<and>
         set (row_addrs h' (rref res)) \<inter> set (row_addrs h matrix) = {} \<and>
         list_all (\<lambda>a. length h \<le> a) (row_addrs h' (rref res))"
proof -
  note w = computeRREF_writes [OF assms]
  have t: "take (length h) h' = h"
    using w(1) by (intro nth_equalityI) (auto simp: same_outside_def)
  from assms obtain c h1 where c: "clone matrix h = Inr (c, h1)"
    by (auto simp: computeRREF_def bind_e_eq_Inr)
  from c obtain rs d where rd: "get_data h (data matrix) = Inr rs" "get_rows h rs = Inr d"
    by (rule clone_Inr)
  have dm: "data matrix < length h" using rd(1) by (simp add: get_data_Inr)
  have ra: "row_addrs h matrix = rs" using rd(1) by (simp add: row_addrs_def)
  have rl: "a < length h" if "a \<in> set rs" for a
  proof -
    from that obtain i where "i < length rs" "a = rs ! i" by (auto simp: in_set_conv_nth)
    with rd(2) show ?thesis by (auto simp: get_rows_Inr get_row_Inr)
  qed
  have same: "h' ! a = h ! a \<and> a < length h'" if "a < length h" for a
    using that w(1) by (auto simp: same_outside_def)
  have gd: "get_data h' (data matrix) = Inr rs"
    using rd(1) same [OF dm] by (simp add: get_data_Inr)
  have "get_row h' a = get_row h a" if "a \<in> set rs" for a
    using same [OF rl [OF that]] rl [OF that] by (simp add: get_row_def)
  then have "get_rows h' rs = get_rows h rs" by (rule get_rows_cong)
  then have ro: "rows_of h' matrix = rows_of h matrix"
    using gd rd by (simp add: rows_of_def)
  note rg = regionD [OF w(2)]
  have fresh: "length h \<le> a" if "a \<in> set (row_addrs h' (rref res))" for a
    using rg(5) [OF that] by simp
  have "set (row_addrs h' (rref res)) \<inter> set (row_addrs h matrix) = {}"
    using fresh rl ra by fastforce
  then show ?thesis
    using t ro rg(2) dm fresh by (auto simp: list_all_iff)
qed

section \<open>The log is a chain\<close>

lemma logged_v: "update_v True M' (record_v True p M lg) = lg @ [(p, M, Some M')]"
  by (simp add: update_v_def record_v_def)

lemma chain_v_append:
  assumes "chain_v M0 lg M"
  shows "chain_v M0 (lg @ [(p, M, Some M')]) M'"
proof (cases "lg = []")
  case True
  then show ?thesis using assms by (simp add: chain_v_def)
next
  case False
  have "snd (snd ((lg @ [(p, M, Some M')]) ! k)) =
        Some (fst (snd ((lg @ [(p, M, Some M')]) ! Suc k)))"
    if "Suc k < length (lg @ [(p, M, Some M')])" for k
  proof (cases "Suc k < length lg")
    case True
    then show ?thesis using assms False by (simp add: chain_v_def nth_append)
  next
    case False
    with that have k: "Suc k = length lg" by simp
    then have "lg ! k = last lg"
      using \<open>lg \<noteq> []\<close> k [symmetric] by (simp add: last_conv_nth)
    then show ?thesis
      using assms \<open>lg \<noteq> []\<close> k by (simp add: chain_v_def nth_append)
  qed
  then show ?thesis
    using assms False by (simp add: chain_v_def)
qed

lemma eliminate_v_chain:
  assumes "chain_v M0 lg M"
  shows "chain_v M0 (fst (eliminate_v True col cur (lg, M))) (snd (eliminate_v True col cur (lg, M)))"
proof -
  let ?P = "\<lambda>s. chain_v M0 (fst s) (snd s)"
  have "?P (fold (\<lambda>row (lg, M).
             if row \<noteq> cur \<and> M ! row ! col \<noteq> 0 then
               (update_v True (addmul_v M row cur (- (M ! row ! col)))
                  (record_v True (AddV row cur (- (M ! row ! col))) M lg),
                addmul_v M row cur (- (M ! row ! col)))
             else (lg, M)) [0..<length M] (lg, M))"
  proof (rule fold_invariant [where Q = "\<lambda>x. True" and P = ?P])
    show "?P (lg, M)" using assms by simp
  next
    fix row s assume "?P s"
    then show "?P ((\<lambda>row (lg, M).
             if row \<noteq> cur \<and> M ! row ! col \<noteq> 0 then
               (update_v True (addmul_v M row cur (- (M ! row ! col)))
                  (record_v True (AddV row cur (- (M ! row ! col))) M lg),
                addmul_v M row cur (- (M ! row ! col)))
             else (lg, M)) row s)"
      by (cases s) (simp add: logged_v chain_v_append)
  qed simp
  then show ?thesis by (simp add: eliminate_v_def)
qed

lemma step_v_chain:
  assumes "chain_v M0 lg M"
  shows "chain_v M0 (fst (snd (snd (step_v True col (cur, pivs, lg, M)))))
           (snd (snd (snd (step_v True col (cur, pivs, lg, M)))))"
proof (cases "M ! find_pivot_v M col cur ! col = 0")
  case True
  then show ?thesis using assms by (simp add: step_v_def)
next
  case False
  let ?p = "find_pivot_v M col cur"
  define s2 where "s2 = (if ?p \<noteq> cur
               then (update_v True (swap_v M cur ?p) (record_v True (SwapV cur ?p) M lg),
                     swap_v M cur ?p)
               else (lg, M))"
  define pv where "pv = snd s2 ! cur ! col"
  define s4 where "s4 = (if pv \<noteq> 1
               then (update_v True (scale_v (snd s2) cur (1 / pv))
                       (record_v True (ScaleV cur (1 / pv)) (snd s2) (fst s2)),
                     scale_v (snd s2) cur (1 / pv))
               else s2)"
  define s5 where "s5 = eliminate_v True col cur s4"
  have st: "step_v True col (cur, pivs, lg, M) = (cur + 1, pivs @ [col], fst s5, snd s5)"
    by (rule step_v_pivot [OF False s2_def pv_def s4_def s5_def])
  have c2: "chain_v M0 (fst s2) (snd s2)"
    using assms by (simp add: s2_def logged_v chain_v_append)
  have c4: "chain_v M0 (fst s4) (snd s4)"
    using c2 by (simp add: s4_def logged_v chain_v_append)
  have "chain_v M0 (fst s5) (snd s5)"
    using eliminate_v_chain [OF c4, of col cur] by (simp add: s5_def)
  then show ?thesis by (simp add: st)
qed

lemma loop_v_stop:
  "\<not> (col < n \<and> fst s < length (snd (snd (snd s)))) \<Longrightarrow> loop_v tr n col s = s"
  by (subst loop_v.simps) auto

lemma loop_v_step:
  "col < n \<Longrightarrow> fst s < length (snd (snd (snd s))) \<Longrightarrow>
   loop_v tr n col s = loop_v tr n (col + 1) (step_v tr col s)"
  by (subst loop_v.simps) simp

lemma loop_v_chain:
  assumes "chain_v M0 (fst (snd (snd s))) (snd (snd (snd s)))"
  shows "chain_v M0 (fst (snd (snd (loop_v True n col s)))) (snd (snd (snd (loop_v True n col s))))"
  using assms
proof (induction "n - col" arbitrary: col s)
  case 0
  then show ?case by (simp add: loop_v_stop)
next
  case (Suc k)
  obtain cur pivs lg M where s: "s = (cur, pivs, lg, M)" by (cases s)
  show ?case
  proof (cases "col < n \<and> fst s < length (snd (snd (snd s)))")
    case False
    then show ?thesis using Suc.prems by (simp add: loop_v_stop)
  next
    case True
    have k: "k = n - (col + 1)" using Suc.hyps by simp
    have "chain_v M0 (fst (snd (snd (step_v True col s)))) (snd (snd (snd (step_v True col s))))"
      using step_v_chain [of M0 lg M col cur pivs] Suc.prems s by simp
    from Suc.hyps(1) [OF k this] show ?thesis
      using True by (simp add: loop_v_step)
  qed
qed

lemma rref_v_chain:
  "chain_v M (fst (snd (snd (rref_v True n M)))) (snd (snd (snd (rref_v True n M))))"
  unfolding rref_v_def by (rule loop_v_chain) (simp add: chain_v_def)

section \<open>Equal values, equal Fractions\<close>

lemma toNumber_list_inj:
  "list_all frac_ok xs \<Longrightarrow> list_all frac_ok ys \<Longrightarrow> map toNumber xs = map toNumber ys \<Longrightarrow> xs = ys"
proof (induction xs arbitrary: ys)
  case Nil
  then show ?case by simp
next
  case (Cons x xs)
  then show ?case by (cases ys) (auto dest: toNumber_inj)
qed

lemma toNumber_rows_inj:
  "list_all (list_all frac_ok) xs \<Longrightarrow> list_all (list_all frac_ok) ys \<Longrightarrow>
   map (map toNumber) xs = map (map toNumber) ys \<Longrightarrow> xs = ys"
proof (induction xs arbitrary: ys)
  case Nil
  then show ?case by simp
next
  case (Cons x xs)
  then show ?case by (cases ys) (auto dest: toNumber_list_inj)
qed

lemma valid_rows_ok: "valid_matrix h m \<Longrightarrow> list_all (list_all frac_ok) (rows_of h m)"
  by (auto simp: valid_matrix_iff rows_of_def list_all_iff)

lemma vals_inj:
  assumes "valid_matrix h a" "valid_matrix h' b" "vals h a = vals h' b"
  shows "rows_of h a = rows_of h' b"
  using toNumber_rows_inj [OF valid_rows_ok [OF assms(1)] valid_rows_ok [OF assms(2)]] assms(3)
  by (simp add: vals_def)

lemma snaps_okD:
  assumes "snaps_ok hi h ops" "k < length ops"
  shows "valid_matrix h (matrixBefore (ops ! k))"
    and "\<And>s. matrixAfter (ops ! k) = Some s \<Longrightarrow> valid_matrix h s"
  using assms by (auto simp: snaps_ok_def snap_ok_def list_all_length split: option.splits)

lemma log_abs_nth:
  assumes "k < length ops"
  shows "fst (snd (log_abs h ops ! k)) = vals h (matrixBefore (ops ! k))"
    and "snd (snd (log_abs h ops ! k)) = map_option (vals h) (matrixAfter (ops ! k))"
  using assms by (simp_all add: log_abs_def)

text \<open>
  C10. With operation tracking, the log returned by computeRREF for a valid Matrix is
  a chain: the snapshot before the first operation equals the input matrix, the
  snapshot after each operation equals the snapshot before the next one, and the
  snapshot after the last operation equals the reduced matrix that is returned. When
  the log is empty the reduced matrix equals the input matrix. Snapshots are compared
  as they are read from the store when computeRREF returns.
\<close>

theorem operation_log_chain:
  assumes v: "valid_matrix h matrix" and run: "computeRREF matrix True h = Inr (res, h')"
  shows "\<exists>ops. operations res = Some ops \<and>
           (if ops = [] then rows_of h' (rref res) = rows_of h matrix
            else rows_of h' (matrixBefore (hd ops)) = rows_of h matrix \<and>
                 (\<forall>k. Suc k < length ops \<longrightarrow>
                    (\<exists>s. matrixAfter (ops ! k) = Some s \<and>
                         rows_of h' s = rows_of h' (matrixBefore (ops ! Suc k)))) \<and>
                 (\<exists>s. matrixAfter (last ops) = Some s \<and> rows_of h' s = rows_of h' (rref res)))"
proof -
  from computeRREF_sim [OF v, of True] run obtain cur ops where
    s: "log_inv (length h) (length h + rows matrix + 1) (rref res) (ops, h')"
       "operations res = Some ops"
       "(cur, pivots res, log_abs h' ops, vals h' (rref res)) = rref_v True (cols matrix) (vals h matrix)"
    by auto
  let ?lg = "log_abs h' ops"
  have ch: "chain_v (vals h matrix) ?lg (vals h' (rref res))"
    using rref_v_chain [of "vals h matrix" "cols matrix"] s(3) [symmetric] by simp
  note vr = log_invD(3) [OF s(1)] and sn = log_invD(2) [OF s(1)]
  have len: "length ?lg = length ops" by (simp add: log_abs_def)
  show ?thesis
  proof (cases "ops = []")
    case True
    then have "vals h' (rref res) = vals h matrix"
      using ch by (simp add: chain_v_def log_abs_def)
    from vals_inj [OF vr v this] show ?thesis using True s(2) by simp
  next
    case False
    then have ne: "?lg \<noteq> []" using len by auto
    have l0: "0 < length ops" using False by simp
    have "vals h' (matrixBefore (hd ops)) = vals h matrix"
      using ch ne log_abs_nth(1) [OF l0, of h'] False
      by (simp add: chain_v_def hd_conv_nth)
    from vals_inj [OF _ v this] snaps_okD(1) [OF sn l0] False
    have first: "rows_of h' (matrixBefore (hd ops)) = rows_of h matrix"
      by (simp add: hd_conv_nth)
    have mid: "\<exists>s. matrixAfter (ops ! k) = Some s \<and>
                 rows_of h' s = rows_of h' (matrixBefore (ops ! Suc k))"
      if k: "Suc k < length ops" for k
    proof -
      from k have k': "k < length ops" by simp
      have "snd (snd (?lg ! k)) = Some (fst (snd (?lg ! Suc k)))"
        using ch ne k len by (simp add: chain_v_def)
      then have "map_option (vals h') (matrixAfter (ops ! k)) =
                 Some (vals h' (matrixBefore (ops ! Suc k)))"
        using log_abs_nth(2) [OF k', of h'] log_abs_nth(1) [OF k, of h'] by simp
      then obtain s where a: "matrixAfter (ops ! k) = Some s"
        "vals h' s = vals h' (matrixBefore (ops ! Suc k))" by auto
      from vals_inj [OF snaps_okD(2) [OF sn k' a(1)] snaps_okD(1) [OF sn k] a(2)] a(1)
      show ?thesis by simp
    qed
    have ll: "length ops - 1 < length ops" using False by simp
    have "snd (snd (last ?lg)) = Some (vals h' (rref res))"
      using ch ne by (simp add: chain_v_def)
    then have "map_option (vals h') (matrixAfter (last ops)) = Some (vals h' (rref res))"
      using log_abs_nth(2) [OF ll, of h'] ne False len by (simp add: last_conv_nth)
    then obtain s where a: "matrixAfter (last ops) = Some s" "vals h' s = vals h' (rref res)"
      by auto
    have "valid_matrix h' s"
      using snaps_okD(2) [OF sn ll] a(1) False by (simp add: last_conv_nth)
    from vals_inj [OF this vr a(2)] a(1)
    have last: "\<exists>s. matrixAfter (last ops) = Some s \<and> rows_of h' s = rows_of h' (rref res)"
      by simp
    show ?thesis using False s(2) first mid last by simp
  qed
qed

lemma example_valid:
  "valid_matrix
     [ORow [\<lparr>numerator = 1, denominator = 1\<rparr>, \<lparr>numerator = 2, denominator = 1\<rparr>],
      ORow [\<lparr>numerator = 3, denominator = 1\<rparr>, \<lparr>numerator = 4, denominator = 1\<rparr>],
      OData [0, 1]] \<lparr>data = 2, rows = 2, cols = 2\<rparr>"
  by code_simp

theorem operation_log_chain_witness:
  "\<exists>res h' ops.
     computeRREF \<lparr>data = 2, rows = 2, cols = 2\<rparr> True
       [ORow [\<lparr>numerator = 1, denominator = 1\<rparr>, \<lparr>numerator = 2, denominator = 1\<rparr>],
        ORow [\<lparr>numerator = 3, denominator = 1\<rparr>, \<lparr>numerator = 4, denominator = 1\<rparr>],
        OData [0, 1]] = Inr (res, h') \<and>
     operations res = Some ops \<and> length ops = 5 \<and>
     rows_of h' (matrixBefore (hd ops)) =
       [[\<lparr>numerator = 1, denominator = 1\<rparr>, \<lparr>numerator = 2, denominator = 1\<rparr>],
        [\<lparr>numerator = 3, denominator = 1\<rparr>, \<lparr>numerator = 4, denominator = 1\<rparr>]] \<and>
     (\<exists>s. matrixAfter (last ops) = Some s \<and> rows_of h' s = rows_of h' (rref res))"
proof -
  let ?h = "[ORow [\<lparr>numerator = 1, denominator = 1\<rparr>, \<lparr>numerator = 2, denominator = 1\<rparr>],
        ORow [\<lparr>numerator = 3, denominator = 1\<rparr>, \<lparr>numerator = 4, denominator = 1\<rparr>],
        OData [0, 1]]"
  let ?m = "\<lparr>data = 2, rows = 2, cols = 2\<rparr>"
  from computeRREF_sim [OF example_valid, of True] obtain res h' where
    run: "computeRREF ?m True ?h = Inr (res, h')" by blast
  have n: "(case computeRREF ?m True ?h of Inl e \<Rightarrow> False
            | Inr (r, h1) \<Rightarrow> map_option length (operations r) = Some 5)"
    by code_simp
  have ro: "rows_of ?h ?m =
       [[\<lparr>numerator = 1, denominator = 1\<rparr>, \<lparr>numerator = 2, denominator = 1\<rparr>],
        [\<lparr>numerator = 3, denominator = 1\<rparr>, \<lparr>numerator = 4, denominator = 1\<rparr>]]"
    by code_simp
  from operation_log_chain [OF example_valid run] obtain ops where
    c: "operations res = Some ops"
       "(if ops = [] then rows_of h' (rref res) = rows_of ?h ?m
         else rows_of h' (matrixBefore (hd ops)) = rows_of ?h ?m \<and>
              (\<forall>k. Suc k < length ops \<longrightarrow>
                 (\<exists>s. matrixAfter (ops ! k) = Some s \<and>
                      rows_of h' s = rows_of h' (matrixBefore (ops ! Suc k)))) \<and>
              (\<exists>s. matrixAfter (last ops) = Some s \<and> rows_of h' s = rows_of h' (rref res)))"
    by blast
  from n run c(1) have l: "length ops = 5" by simp
  then have "ops \<noteq> []" by auto
  with c(2) ro l run c(1) show ?thesis by auto
qed

theorem computeRREF_leaves_original_witness:
  "\<exists>res h'.
     computeRREF \<lparr>data = 2, rows = 2, cols = 2\<rparr> True
       [ORow [\<lparr>numerator = 1, denominator = 1\<rparr>, \<lparr>numerator = 2, denominator = 1\<rparr>],
        ORow [\<lparr>numerator = 3, denominator = 1\<rparr>, \<lparr>numerator = 4, denominator = 1\<rparr>],
        OData [0, 1]] = Inr (res, h') \<and>
     take 3 h' =
       [ORow [\<lparr>numerator = 1, denominator = 1\<rparr>, \<lparr>numerator = 2, denominator = 1\<rparr>],
        ORow [\<lparr>numerator = 3, denominator = 1\<rparr>, \<lparr>numerator = 4, denominator = 1\<rparr>],
        OData [0, 1]] \<and>
     3 \<le> data (rref res) \<and> list_all (\<lambda>a. 3 \<le> a) (row_addrs h' (rref res))"
proof -
  let ?h = "[ORow [\<lparr>numerator = 1, denominator = 1\<rparr>, \<lparr>numerator = 2, denominator = 1\<rparr>],
        ORow [\<lparr>numerator = 3, denominator = 1\<rparr>, \<lparr>numerator = 4, denominator = 1\<rparr>],
        OData [0, 1]]"
  let ?m = "\<lparr>data = 2, rows = 2, cols = 2\<rparr>"
  from computeRREF_sim [OF example_valid, of True] obtain res h' where
    run: "computeRREF ?m True ?h = Inr (res, h')" by blast
  from computeRREF_leaves_original [OF run] run show ?thesis
    by (auto simp: numeral_3_eq_3)
qed

section \<open>Row operations on values, entry by entry\<close>

lemma rect_nth: "rect n M \<Longrightarrow> i < length M \<Longrightarrow> length (M ! i) = n"
  by (simp add: rect_def list_all_length)

lemma rectI: "(\<And>i. i < length M \<Longrightarrow> length (M ! i) = n) \<Longrightarrow> rect n M"
  by (simp add: rect_def list_all_length)

lemma swap_v_length [simp]: "length (swap_v M i j) = length M"
  by (simp add: swap_v_def)

lemma scale_v_length [simp]: "length (scale_v M i s) = length M"
  by (simp add: scale_v_def)

lemma addmul_v_length [simp]: "length (addmul_v M i j s) = length M"
  by (simp add: addmul_v_def)



lemma addmul_v_entry:
  assumes "rect n M" "i < length M" "j < length M" "r < length M" "c < n"
  shows "addmul_v M i j s ! r ! c = (if r = i then M ! i ! c + M ! j ! c * s else M ! r ! c)"
  using assms rect_nth [OF assms(1,2)] rect_nth [OF assms(1,3)]
  by (simp add: addmul_v_def nth_list_update)



lemma addmul_v_rect:
  "rect n M \<Longrightarrow> i < length M \<Longrightarrow> j < length M \<Longrightarrow> rect n (addmul_v M i j s)"
  by (rule rectI) (auto simp: addmul_v_def nth_list_update rect_nth)

section \<open>The elimination in closed form\<close>

lemma elim_rows_length [simp]: "length (elim_rows M col cur k) = length M"
  by (simp add: elim_rows_def)








section \<open>One pass on values, in closed form\<close>





section \<open>The invariant of the elimination\<close>






section \<open>The elimination keeps the solutions\<close>



section \<open>The result of the elimination on values\<close>



section \<open>Matrices in reduced row-echelon form\<close>

lemma lead_Some:
  assumes "lead r = Some j"
  shows "j < length r" "r ! j \<noteq> 0" "\<And>k. k < j \<Longrightarrow> r ! k = 0"
  using assms by (auto simp: lead_def find_Some_iff)

lemma lead_None: "lead r = None \<Longrightarrow> k < length r \<Longrightarrow> r ! k = 0"
  by (auto simp: lead_def find_None_iff)

lemma lead_zero_before:
  assumes "\<And>k. k < c \<Longrightarrow> r ! k = 0" "lead r = Some j"
  shows "c \<le> j"
  using assms lead_Some(2) [OF assms(2)] by (meson not_le)

lemma in_rrefD:
  assumes "in_rref M" "i < length M"
  shows "lead (M ! i) = None \<Longrightarrow> i < k \<Longrightarrow> k < length M \<Longrightarrow> lead (M ! k) = None"
    and "lead (M ! i) = Some j \<Longrightarrow> M ! i ! j = 1"
    and "lead (M ! i) = Some j \<Longrightarrow> k < length M \<Longrightarrow> k \<noteq> i \<Longrightarrow> M ! k ! j = 0"
    and "lead (M ! i) = Some j \<Longrightarrow> i < k \<Longrightarrow> k < length M \<Longrightarrow> lead (M ! k) = Some j' \<Longrightarrow> j < j'"
proof -
  from assms have a: "case lead (M ! i) of
          None \<Rightarrow> list_all (\<lambda>k. lead (M ! k) = None) [i + 1..<length M]
        | Some j \<Rightarrow>
            M ! i ! j = 1 \<and>
            list_all (\<lambda>k. k = i \<or> M ! k ! j = 0) [0..<length M] \<and>
            list_all (\<lambda>k. case lead (M ! k) of None \<Rightarrow> True | Some j' \<Rightarrow> j < j')
              [i + 1..<length M]"
    by (simp add: in_rref_def list_all_iff)
  show "lead (M ! i) = None \<Longrightarrow> i < k \<Longrightarrow> k < length M \<Longrightarrow> lead (M ! k) = None"
    using a by (simp add: list_all_iff)
  show "lead (M ! i) = Some j \<Longrightarrow> M ! i ! j = 1" using a by simp
  show "lead (M ! i) = Some j \<Longrightarrow> k < length M \<Longrightarrow> k \<noteq> i \<Longrightarrow> M ! k ! j = 0"
    using a by (auto simp: list_all_iff)
  show "j < j'"
    if l: "lead (M ! i) = Some j" "i < k" "k < length M" "lead (M ! k) = Some j'"
  proof -
    from a l(1) have "\<forall>k\<in>set [i + 1..<length M].
        case lead (M ! k) of None \<Rightarrow> True | Some j' \<Rightarrow> j < j'"
      by (simp add: list_all_iff)
    moreover have "k \<in> set [i + 1..<length M]" using l(2,3) by simp
    ultimately have "case lead (M ! k) of None \<Rightarrow> True | Some j' \<Rightarrow> j < j'" by blast
    then show ?thesis using l(4) by simp
  qed
qed

lemma eliminate_v_id:
  assumes "\<And>row. row < length M \<Longrightarrow> row \<noteq> cur \<Longrightarrow> M ! row ! col = 0"
  shows "eliminate_v tr col cur (lg, M) = (lg, M)"
proof -
  have "fold (\<lambda>row (lg, M).
             if row \<noteq> cur \<and> M ! row ! col \<noteq> 0 then
               (update_v tr (addmul_v M row cur (- (M ! row ! col)))
                  (record_v tr (AddV row cur (- (M ! row ! col))) M lg),
                addmul_v M row cur (- (M ! row ! col)))
             else (lg, M)) xs (lg, M) = (lg, M)" if "\<forall>x\<in>set xs. x < length M" for xs
    using that assms by (induction xs) auto
  from this [of "[0..<length M]"] show ?thesis by (simp add: eliminate_v_def)
qed

lemma step_v_reduced:
  assumes rr: "in_rref M" and r: "rect n M" and inv: "done_inv col cur pivs M"
    and cur: "cur < length M" and col: "col < n"
  shows "\<exists>cur' pivs'. step_v tr col (cur, pivs, lg, M) = (cur', pivs', lg, M) \<and>
           done_inv (col + 1) cur' pivs' M"
proof -
  from inv have pv: "pivs = map (\<lambda>i. the (lead (M ! i))) [0..<cur]"
    and old: "\<And>i. i < cur \<Longrightarrow> \<exists>j. lead (M ! i) = Some j \<and> j < col"
    and low: "\<And>i j. cur \<le> i \<Longrightarrow> i < length M \<Longrightarrow> j < col \<Longrightarrow> M ! i ! j = 0"
    by (auto simp: done_inv_def)
  let ?p = "find_pivot_v M col cur"
  note fp = find_pivot_v_props [OF cur, where col = col]
  have rl: "length (M ! i) = n" if "i < length M" for i by (rule rect_nth [OF r that])
  show ?thesis
  proof (cases "lead (M ! cur) = Some col")
    case True
    have one: "M ! cur ! col = 1" by (rule in_rrefD(2) [OF rr cur True])
    have others: "M ! k ! col = 0" if "k < length M" "k \<noteq> cur" for k
      by (rule in_rrefD(3) [OF rr cur True that])
    have p: "?p = cur"
    proof (rule ccontr)
      assume "?p \<noteq> cur"
      then have "cur < ?p" using fp(1) by simp
      from fp(4) [OF _ this] have "\<bar>M ! cur ! col\<bar> < \<bar>M ! ?p ! col\<bar>" by simp
      then show False using one others [OF fp(2) \<open>?p \<noteq> cur\<close>] by simp
    qed
    have st: "step_v tr col (cur, pivs, lg, M) = (cur + 1, pivs @ [col], lg, M)"
      using p one eliminate_v_id [of M cur col tr lg] others
      by (simp add: step_v_def Let_def)
    have "done_inv (col + 1) (cur + 1) (pivs @ [col]) M"
      unfolding done_inv_def
    proof (intro conjI allI impI)
      show "cur + 1 \<le> length M" using cur by simp
      show "pivs @ [col] = map (\<lambda>i. the (lead (M ! i))) [0..<cur + 1]"
        using pv True by simp
      show "\<exists>j. lead (M ! i) = Some j \<and> j < col + 1" if "i < cur + 1" for i
        using that old [of i] True by (cases "i = cur") auto
      show "M ! i ! j = 0" if "cur + 1 \<le> i \<and> i < length M" "j < col + 1" for i j
        using that low [of i j] others [of i] by (cases "j = col") simp_all
    qed
    with st show ?thesis by blast
  next
    case False
    have czero: "M ! cur ! col = 0"
    proof (cases "lead (M ! cur)")
      case None
      then show ?thesis using lead_None [OF None, of col] rl [OF cur] col by simp
    next
      case (Some j)
      have "col \<le> j" by (rule lead_zero_before [OF low [OF _ cur] Some]) simp_all
      with False Some have "col < j" by simp
      then show ?thesis by (rule lead_Some(3) [OF Some])
    qed
    have zero: "M ! i ! col = 0" if i: "cur \<le> i" "i < length M" for i
    proof (cases "i = cur")
      case True
      then show ?thesis using czero by simp
    next
      case ne: False
      with i have ci: "cur < i" by simp
      show ?thesis
      proof (cases "lead (M ! i)")
        case None
        then show ?thesis using lead_None [OF None, of col] rl [OF i(2)] col by simp
      next
        case (Some j')
        have "col < j'"
        proof (cases "lead (M ! cur)")
          case None
          from in_rrefD(1) [OF rr cur None ci i(2)] Some show ?thesis by simp
        next
          case (Some j)
          have "col \<le> j" by (rule lead_zero_before [OF low [OF _ cur] Some]) simp_all
          moreover have "j < j'" by (rule in_rrefD(4) [OF rr cur Some ci i(2) \<open>lead (M ! i) = Some j'\<close>])
          ultimately show ?thesis by simp
        qed
        then show ?thesis by (rule lead_Some(3) [OF Some])
      qed
    qed
    have "M ! ?p ! col = 0" using zero [OF fp(1) fp(2)] .
    then have st: "step_v tr col (cur, pivs, lg, M) = (cur, pivs, lg, M)"
      by (simp add: step_v_def)
    have "done_inv (col + 1) cur pivs M"
      unfolding done_inv_def
    proof (intro conjI allI impI)
      show "cur \<le> length M" using cur by simp
      show "pivs = map (\<lambda>i. the (lead (M ! i))) [0..<cur]" by (rule pv)
      show "\<exists>j. lead (M ! i) = Some j \<and> j < col + 1" if "i < cur" for i
        using old [OF that] by auto
      show "M ! i ! j = 0" if "cur \<le> i \<and> i < length M" "j < col + 1" for i j
        using that low [of i j] zero [of i] by (cases "j = col") simp_all
    qed
    with st show ?thesis by blast
  qed
qed

lemma filter_prefix:
  assumes "k \<le> length xs" "\<And>i. i < k \<Longrightarrow> P (xs ! i)"
    and "\<And>i. k \<le> i \<Longrightarrow> i < length xs \<Longrightarrow> \<not> P (xs ! i)"
  shows "filter P xs = take k xs"
proof -
  have a: "filter P (take k xs) = take k xs"
    using assms(1,2) by (auto simp: filter_id_conv in_set_conv_nth)
  have b: "filter P (drop k xs) = []"
    using assms(1,3) by (auto simp: filter_empty_conv in_set_conv_nth)
  have "filter P xs = filter P (take k xs @ drop k xs)" by simp
  also have "\<dots> = take k xs" unfolding filter_append a b by simp
  finally show ?thesis .
qed

lemma lead_all_zero: "(\<And>j. j < length r \<Longrightarrow> r ! j = 0) \<Longrightarrow> lead r = None"
  by (auto simp: lead_def find_None_iff)

lemma done_pivots:
  assumes inv: "done_inv col cur pivs M" and r: "rect n M" and e: "col = n \<or> cur = length M"
  shows "pivs = pivot_cols M"
proof -
  from inv have cl: "cur \<le> length M" and pv: "pivs = map (\<lambda>i. the (lead (M ! i))) [0..<cur]"
    and old: "\<And>i. i < cur \<Longrightarrow> \<exists>j. lead (M ! i) = Some j \<and> j < col"
    and low: "\<And>i j. cur \<le> i \<Longrightarrow> i < length M \<Longrightarrow> j < col \<Longrightarrow> M ! i ! j = 0"
    by (auto simp: done_inv_def)
  have rest: "\<not> lead (M ! i) \<noteq> None" if i: "cur \<le> i" "i < length M" for i
  proof -
    from e i have c: "col = n" by auto
    have "lead (M ! i) = None"
      by (rule lead_all_zero) (use low [OF i] c rect_nth [OF r i(2)] in simp)
    then show ?thesis by simp
  qed
  have f: "filter (\<lambda>r. lead r \<noteq> None) M = take cur M"
    by (rule filter_prefix [OF cl]) (use old rest in auto)
  have m: "map (\<lambda>r. the (lead r)) (take cur M) = map (\<lambda>i. the (lead (M ! i))) [0..<cur]"
    using cl by (intro nth_equalityI) simp_all
  show ?thesis unfolding pivot_cols_def f pv by (rule m [symmetric])
qed

lemma loop_v_reduced:
  assumes rr: "in_rref M" and r: "rect n M" and inv: "done_inv col cur pivs M" and cn: "col \<le> n"
  shows "\<exists>cur'. loop_v tr n col (cur, pivs, lg, M) = (cur', pivot_cols M, lg, M)"
  using inv cn
proof (induction "n - col" arbitrary: col cur pivs)
  case 0
  then have c: "col = n" by simp
  have "pivs = pivot_cols M" by (rule done_pivots [OF "0.prems"(1) r]) (simp add: c)
  then show ?case using c by (simp add: loop_v_stop)
next
  case (Suc k)
  from Suc.hyps have col: "col < n" by simp
  from Suc.prems(1) have cl: "cur \<le> length M" by (simp add: done_inv_def)
  show ?case
  proof (cases "cur < length M")
    case False
    then have c: "cur = length M" using cl by simp
    have "pivs = pivot_cols M" by (rule done_pivots [OF Suc.prems(1) r]) (simp add: c)
    then show ?thesis using False by (simp add: loop_v_stop)
  next
    case True
    from step_v_reduced [OF rr r Suc.prems(1) True col, of tr lg] obtain cur1 pivs1 where
      st: "step_v tr col (cur, pivs, lg, M) = (cur1, pivs1, lg, M)"
          "done_inv (col + 1) cur1 pivs1 M" by blast
    have k: "k = n - (col + 1)" using Suc.hyps by simp
    from Suc.hyps(1) [OF k st(2)] col
    show ?thesis using True col st(1) by (simp add: loop_v_step)
  qed
qed

lemma rref_v_reduced:
  assumes "in_rref M" "rect n M"
  shows "\<exists>cur. rref_v tr n M = (cur, pivot_cols M, [], M)"
  unfolding rref_v_def
  by (rule loop_v_reduced [OF assms]) (simp_all add: done_inv_def)

lemma valid_rect: "valid_matrix h m \<Longrightarrow> rect (cols m) (vals h m)"
  using vals_shape [of h m] by (intro rectI) simp

text \<open>
  C4. For every valid Matrix that is already in reduced row-echelon form (every
  leading entry is 1 and the only non-zero entry of its column, the leading entries
  move strictly to the right down the rows, the zero rows are at the bottom),
  computeRREF with tracking returns a reduced matrix with the entries of the input, the
  columns of the leading entries as pivot columns, and an empty log.
\<close>

theorem computeRREF_idempotent:
  assumes v: "valid_matrix h M" and rr: "in_rref (vals h M)"
  shows "\<exists>res h'. computeRREF M True h = Inr (res, h') \<and>
           rows_of h' (rref res) = rows_of h M \<and>
           pivots res = pivot_cols (vals h M) \<and>
           operations res = Some []"
proof -
  from computeRREF_sim [OF v, of True] obtain res h' cur ops where
    s: "computeRREF M True h = Inr (res, h')"
       "log_inv (length h) (length h + rows M + 1) (rref res) (ops, h')"
       "operations res = Some ops"
       "(cur, pivots res, log_abs h' ops, vals h' (rref res)) = rref_v True (cols M) (vals h M)"
    by auto
  from rref_v_reduced [OF rr valid_rect [OF v], of True] s(4)
  have e: "pivots res = pivot_cols (vals h M)" "log_abs h' ops = []"
    "vals h' (rref res) = vals h M" by auto
  from e(2) have "ops = []" by (simp add: log_abs_def)
  moreover have "rows_of h' (rref res) = rows_of h M"
    by (rule vals_inj [OF log_invD(3) [OF s(2)] v e(3)])
  ultimately show ?thesis using s(1,3) e(1) by simp
qed

theorem computeRREF_idempotent_witness:
  "\<exists>res h'.
     computeRREF \<lparr>data = 2, rows = 2, cols = 3\<rparr> True
       [ORow [\<lparr>numerator = 1, denominator = 1\<rparr>, \<lparr>numerator = 2, denominator = 1\<rparr>,
              \<lparr>numerator = 0, denominator = 1\<rparr>],
        ORow [\<lparr>numerator = 0, denominator = 1\<rparr>, \<lparr>numerator = 0, denominator = 1\<rparr>,
              \<lparr>numerator = 1, denominator = 1\<rparr>],
        OData [0, 1]] = Inr (res, h') \<and>
     rows_of h' (rref res) =
       [[\<lparr>numerator = 1, denominator = 1\<rparr>, \<lparr>numerator = 2, denominator = 1\<rparr>,
         \<lparr>numerator = 0, denominator = 1\<rparr>],
        [\<lparr>numerator = 0, denominator = 1\<rparr>, \<lparr>numerator = 0, denominator = 1\<rparr>,
         \<lparr>numerator = 1, denominator = 1\<rparr>]] \<and>
     pivots res = [0, 2] \<and> operations res = Some []"
proof -
  let ?h = "[ORow [\<lparr>numerator = 1, denominator = 1\<rparr>, \<lparr>numerator = 2, denominator = 1\<rparr>,
              \<lparr>numerator = 0, denominator = 1\<rparr>],
        ORow [\<lparr>numerator = 0, denominator = 1\<rparr>, \<lparr>numerator = 0, denominator = 1\<rparr>,
              \<lparr>numerator = 1, denominator = 1\<rparr>],
        OData [0, 1]]"
  let ?m = "\<lparr>data = 2, rows = 2, cols = 3\<rparr>"
  have v: "valid_matrix ?h ?m" by code_simp
  have rr: "in_rref (vals ?h ?m)" by code_simp
  have ro: "rows_of ?h ?m =
       [[\<lparr>numerator = 1, denominator = 1\<rparr>, \<lparr>numerator = 2, denominator = 1\<rparr>,
         \<lparr>numerator = 0, denominator = 1\<rparr>],
        [\<lparr>numerator = 0, denominator = 1\<rparr>, \<lparr>numerator = 0, denominator = 1\<rparr>,
         \<lparr>numerator = 1, denominator = 1\<rparr>]]" by code_simp
  have pc: "pivot_cols (vals ?h ?m) = [0, 2]" by code_simp
  from computeRREF_idempotent [OF v rr] ro pc show ?thesis by simp
qed

section \<open>The back substitution\<close>



section \<open>The null space\<close>











section \<open>Matrices that a computation leaves in place\<close>

lemma kept_refl: "kept h h"
  by (simp add: kept_def)







section \<open>The result of the elimination does not depend on the tracking\<close>





section \<open>computeNullSpace\<close>









section \<open>The rank of the transpose\<close>












section \<open>The sizes of the four bases\<close>
















section \<open>computeAllSpaces on a validated grid\<close>








end
